theory Spec2Isabelle
  imports Main "HOL-Library.Monad_Syntax" "HOL-Library.Sublist"
begin

section \<open>Python values and exceptions\<close>

text \<open>
  The program is Python. Cells, pieces, column and row indices are Python integers
  (\<open>int\<close>). A board is a list of rows, each row a list of cells: \<open>board[row][col]\<close>,
  row 0 at the top.

  The only exception the modelled functions can raise is \<open>IndexError\<close> (an index out of
  range, or \<open>random.choice\<close> of an empty list). A function that may raise returns an
  \<open>option\<close>: \<open>None\<close> is "IndexError was raised", \<open>Some v\<close> is "returned v".
\<close>

type_synonym board = "int list list"

definition ROWS :: int where ROWS_def [simp]: "ROWS = 6"
definition COLS :: int where COLS_def [simp]: "COLS = 5"
definition HUMAN_PIECE :: int where HUMAN_PIECE_def [simp]: "HUMAN_PIECE = 1"
definition AI_PIECE :: int where AI_PIECE_def [simp]: "AI_PIECE = 2"
definition EMPTY :: int where EMPTY_def [simp]: "EMPTY = 0"

text \<open>\<open>xs[i]\<close>: a negative index counts from the end, an index out of range raises.\<close>

definition py_index :: "'a list \<Rightarrow> int \<Rightarrow> 'a option" where
  "py_index xs i =
     (let n = int (length xs); j = (if i < 0 then i + n else i)
      in if 0 \<le> j \<and> j < n then Some (xs ! nat j) else None)"

text \<open>\<open>xs[i] = v\<close>, with the same index rule.\<close>

definition py_store :: "'a list \<Rightarrow> int \<Rightarrow> 'a \<Rightarrow> 'a list option" where
  "py_store xs i v =
     (let n = int (length xs); j = (if i < 0 then i + n else i)
      in if 0 \<le> j \<and> j < n then Some (xs[nat j := v]) else None)"

text \<open>\<open>range(n)\<close> and \<open>range(lo, hi)\<close>.\<close>

definition py_range :: "int \<Rightarrow> int list" where
  "py_range n = [0..n - 1]"

definition py_range2 :: "int \<Rightarrow> int \<Rightarrow> int list" where
  "py_range2 lo hi = [lo..hi - 1]"

text \<open>\<open>board[row][col]\<close>.\<close>

definition cell :: "board \<Rightarrow> int \<Rightarrow> int \<Rightarrow> int option" where
  "cell board row col = do { r \<leftarrow> py_index board row; py_index r col }"

text \<open>\<open>board[row][col] = piece\<close> on a board held by value.\<close>

definition set_cell :: "board \<Rightarrow> int \<Rightarrow> int \<Rightarrow> int \<Rightarrow> board option" where
  "set_cell board row col piece =
     do { r \<leftarrow> py_index board row; r' \<leftarrow> py_store r col piece; py_store board row r' }"

section \<open>Board model\<close>

definition create_board :: board where
  "create_board = map (\<lambda>row. replicate (nat COLS) EMPTY) (py_range ROWS)"

definition is_valid_move :: "board \<Rightarrow> int \<Rightarrow> bool option" where
  "is_valid_move board col = do { x \<leftarrow> cell board 0 col; Some (x = EMPTY) }"

text \<open>The loop of \<open>get_valid_moves\<close>, over the columns still to visit.\<close>

fun valid_columns_loop :: "board \<Rightarrow> int list \<Rightarrow> int list \<Rightarrow> int list option" where
  "valid_columns_loop board [] valid_columns = Some valid_columns"
| "valid_columns_loop board (col # cols) valid_columns =
     do { ok \<leftarrow> is_valid_move board col;
          valid_columns_loop board cols (if ok then valid_columns @ [col] else valid_columns) }"

definition get_valid_moves :: "board \<Rightarrow> int list option" where
  "get_valid_moves board = valid_columns_loop board (py_range COLS) []"

text \<open>
  The loop of \<open>make_move\<close> over \<open>range(ROWS-1, -1, -1)\<close>, on the copy \<open>new_board\<close>:
  the first empty cell met is filled and the loop breaks; when no cell is empty the loop
  ends and the copy is returned as it is.
\<close>

fun drop_loop :: "board \<Rightarrow> int list \<Rightarrow> int \<Rightarrow> int \<Rightarrow> board option" where
  "drop_loop new_board [] col piece = Some new_board"
| "drop_loop new_board (row # rows) col piece =
     do { x \<leftarrow> cell new_board row col;
          if x = EMPTY then set_cell new_board row col piece
          else drop_loop new_board rows col piece }"

text \<open>
  On boards held by value \<open>copy.deepcopy\<close> is the identity; the store model
  (\<open>make_move_store\<close>) follows the copy and the assignment object by object.
\<close>

definition make_move :: "board \<Rightarrow> int \<Rightarrow> int \<Rightarrow> board option" where
  "make_move board col piece = drop_loop board (rev (py_range ROWS)) col piece"

section \<open>Terminal detector\<close>

text \<open>
  A chain \<open>board[r0][c0] == piece and board[r1][c1] == piece and ...\<close>: Python's
  \<open>and\<close> stops at the first cell that differs, so the cells after it are not read.
\<close>

fun all_equal :: "board \<Rightarrow> int \<Rightarrow> (int \<times> int) list \<Rightarrow> bool option" where
  "all_equal board piece [] = Some True"
| "all_equal board piece ((row, col) # rest) =
     do { x \<leftarrow> cell board row col;
          if x = piece then all_equal board piece rest else Some False }"

text \<open>The windows in the order the loops of \<open>check_win\<close> visit them.\<close>

definition horizontal_windows :: "(int \<times> int) list list" where
  "horizontal_windows =
     [[(row, col), (row, col + 1), (row, col + 2), (row, col + 3)].
        row \<leftarrow> py_range ROWS, col \<leftarrow> py_range (COLS - 3)]"

definition vertical_windows :: "(int \<times> int) list list" where
  "vertical_windows =
     [[(row, col), (row + 1, col), (row + 2, col), (row + 3, col)].
        col \<leftarrow> py_range COLS, row \<leftarrow> py_range (ROWS - 3)]"

definition diag_down_windows :: "(int \<times> int) list list" where
  "diag_down_windows =
     [[(row, col), (row + 1, col + 1), (row + 2, col + 2), (row + 3, col + 3)].
        row \<leftarrow> py_range (ROWS - 3), col \<leftarrow> py_range (COLS - 3)]"

definition diag_up_windows :: "(int \<times> int) list list" where
  "diag_up_windows =
     [[(row, col), (row - 1, col + 1), (row - 2, col + 2), (row - 3, col + 3)].
        row \<leftarrow> py_range2 3 ROWS, col \<leftarrow> py_range (COLS - 3)]"

text \<open>The loops return \<open>True\<close> at the first window that is all \<open>piece\<close>.\<close>

fun scan_windows :: "board \<Rightarrow> int \<Rightarrow> (int \<times> int) list list \<Rightarrow> bool option" where
  "scan_windows board piece [] = Some False"
| "scan_windows board piece (w # ws) =
     do { hit \<leftarrow> all_equal board piece w;
          if hit then Some True else scan_windows board piece ws }"

definition check_win :: "board \<Rightarrow> int \<Rightarrow> bool option" where
  "check_win board piece =
     scan_windows board piece
       (horizontal_windows @ vertical_windows @ diag_down_windows @ diag_up_windows)"

text \<open>
  \<open>check_tie\<close> of AI\_connect\_4.py: \<open>all(board[0][col] != EMPTY for col in range(COLS))\<close>;
  \<open>all\<close> stops at the first \<open>False\<close>.
\<close>

fun all_top_occupied :: "board \<Rightarrow> int list \<Rightarrow> bool option" where
  "all_top_occupied board [] = Some True"
| "all_top_occupied board (col # cols) =
     do { x \<leftarrow> cell board 0 col;
          if x \<noteq> EMPTY then all_top_occupied board cols else Some False }"

definition check_tie :: "board \<Rightarrow> bool option" where
  "check_tie board = all_top_occupied board (py_range COLS)"

text \<open>
  \<open>check_tie\<close> of FirstVersion\_connect4.py: a loop that returns \<open>False\<close> at the first
  empty top cell and \<open>True\<close> after the loop.
\<close>

fun first_version_tie_loop :: "board \<Rightarrow> int list \<Rightarrow> bool option" where
  "first_version_tie_loop board [] = Some True"
| "first_version_tie_loop board (col # cols) =
     do { x \<leftarrow> cell board 0 col;
          if x = EMPTY then Some False else first_version_tie_loop board cols }"

definition first_version_check_tie :: "board \<Rightarrow> bool option" where
  "first_version_check_tie board = first_version_tie_loop board (py_range COLS)"

definition is_terminal_node :: "board \<Rightarrow> bool option" where
  "is_terminal_node board =
     do { h \<leftarrow> check_win board HUMAN_PIECE;
          if h then Some True
          else do { a \<leftarrow> check_win board AI_PIECE;
                    if a then Some True else check_tie board } }"

section \<open>Static evaluator\<close>

definition evaluate_window :: "int list \<Rightarrow> int \<Rightarrow> int" where
  "evaluate_window window piece =
     (let opponent_piece = (if piece = AI_PIECE then HUMAN_PIECE else AI_PIECE);
          our_pieces = count_list window piece;
          opponent_pieces = count_list window opponent_piece;
          empty_spaces = count_list window EMPTY;
          score = (if our_pieces = 4 then 100
                   else if our_pieces = 3 \<and> empty_spaces = 1 then 5
                   else if our_pieces = 2 \<and> empty_spaces = 2 then 2
                   else 0)
      in if opponent_pieces = 3 \<and> empty_spaces = 1 then score - 4 else score)"

text \<open>
  A slice \<open>xs[lo:hi]\<close>: negative bounds count from the end, and bounds are clipped to
  the list, so a slice never raises.
\<close>

definition py_slice :: "'a list \<Rightarrow> int \<Rightarrow> int \<Rightarrow> 'a list" where
  "py_slice xs lo hi =
     (let n = int (length xs);
          clip = (\<lambda>i. if i < 0 then max 0 (i + n) else min i n);
          l = clip lo; h = clip hi
      in take (nat (h - l)) (drop (nat l) xs))"

text \<open>\<open>[board[row][col] for row in range(ROWS)]\<close>.\<close>

definition column_array :: "board \<Rightarrow> int \<Rightarrow> int list option" where
  "column_array board col = those (map (\<lambda>row. cell board row col) (py_range ROWS))"

text \<open>The window scores of each of the four loop nests of \<open>evaluate_board\<close>.\<close>

definition horizontal_scores :: "board \<Rightarrow> int \<Rightarrow> int list option" where
  "horizontal_scores board piece =
     those [do { r \<leftarrow> py_index board row;
                 Some (evaluate_window (py_slice r col (col + 4)) piece) }.
              row \<leftarrow> py_range ROWS, col \<leftarrow> py_range (COLS - 3)]"

definition vertical_scores :: "board \<Rightarrow> int \<Rightarrow> int list option" where
  "vertical_scores board piece =
     map_option concat
       (those [do { col_array \<leftarrow> column_array board col;
                    Some [evaluate_window (py_slice col_array row (row + 4)) piece.
                            row \<leftarrow> py_range (ROWS - 3)] }.
                 col \<leftarrow> py_range COLS])"

definition diag_down_scores :: "board \<Rightarrow> int \<Rightarrow> int list option" where
  "diag_down_scores board piece =
     those [do { window \<leftarrow> those (map (\<lambda>i. cell board (row + i) (col + i)) (py_range 4));
                 Some (evaluate_window window piece) }.
              row \<leftarrow> py_range (ROWS - 3), col \<leftarrow> py_range (COLS - 3)]"

definition diag_up_scores :: "board \<Rightarrow> int \<Rightarrow> int list option" where
  "diag_up_scores board piece =
     those [do { window \<leftarrow> those (map (\<lambda>i. cell board (row - i) (col + i)) (py_range 4));
                 Some (evaluate_window window piece) }.
              row \<leftarrow> py_range2 3 ROWS, col \<leftarrow> py_range (COLS - 3)]"

definition evaluate_board :: "board \<Rightarrow> int \<Rightarrow> int option" where
  "evaluate_board board piece =
     do { center_array \<leftarrow> column_array board (COLS div 2);
          hs \<leftarrow> horizontal_scores board piece;
          vs \<leftarrow> vertical_scores board piece;
          ds \<leftarrow> diag_down_scores board piece;
          us \<leftarrow> diag_up_scores board piece;
          Some (int (count_list center_array piece) * 3
                + sum_list hs + sum_list vs + sum_list ds + sum_list us) }"

section \<open>Search engine\<close>

text \<open>
  A score is a Python number: an \<open>int\<close> from the evaluator, or the floats
  \<open>-math.inf\<close> and \<open>math.inf\<close>. Python compares them as numbers.
\<close>

datatype score = NegInf | Fin int | PosInf

instantiation score :: linorder
begin

fun less_eq_score :: "score \<Rightarrow> score \<Rightarrow> bool" where
  "less_eq_score NegInf _ = True"
| "less_eq_score _ PosInf = True"
| "less_eq_score (Fin a) (Fin b) = (a \<le> b)"
| "less_eq_score _ _ = False"

definition less_score :: "score \<Rightarrow> score \<Rightarrow> bool" where
  "less_score x y \<longleftrightarrow> x \<le> y \<and> \<not> y \<le> x"

instance
proof
  fix x y z :: score
  show "(x < y) = (x \<le> y \<and> \<not> y \<le> x)" by (simp add: less_score_def)
  show "x \<le> x" by (cases x) auto
  show "x \<le> y \<Longrightarrow> y \<le> z \<Longrightarrow> x \<le> z" by (cases x; cases y; cases z) auto
  show "x \<le> y \<Longrightarrow> y \<le> x \<Longrightarrow> x = y" by (cases x; cases y) auto
  show "x \<le> y \<or> y \<le> x" by (cases x; cases y) auto
qed

end

text \<open>
  The two module globals, threaded through the search as a state. \<open>get_ai_move\<close>
  resets both to 0 and they only grow.
\<close>

record stats =
  nodes_visited :: nat
  max_depth_reached :: nat

text \<open>
  What the search reads from outside: the clock and the random generator. A call of
  \<open>minimax\<close> is named by the value of \<open>nodes_visited\<close> after its increment, a turn of
  the loop of \<open>get_ai_move\<close> by its depth:
  \<^item> \<open>deadline_passed n\<close>: whether \<open>time.time() - start_time > time_limit\<close> holds at
    call n of \<open>minimax\<close>;
  \<^item> \<open>random_index n\<close>: the random number behind \<open>random.choice\<close> at call n;
  \<^item> \<open>loop_deadline_passed k\<close>: whether \<open>time.time() - start_time > time_limit\<close> holds
    at the head of the turn with depth k;
  \<^item> \<open>finished_in_time k\<close>: whether \<open>time.time() - start_time < time_limit\<close> holds
    after the search at depth k.
\<close>

record env =
  deadline_passed :: "nat \<Rightarrow> bool"
  random_index :: "nat \<Rightarrow> nat"
  loop_deadline_passed :: "nat \<Rightarrow> bool"
  finished_in_time :: "nat \<Rightarrow> bool"

text \<open>\<open>random.choice(xs)\<close>: an element of \<open>xs\<close>; raises IndexError when \<open>xs\<close> is empty.\<close>

definition py_choice :: "nat \<Rightarrow> 'a list \<Rightarrow> 'a option" where
  "py_choice k xs = (if xs = [] then None else Some (xs ! (k mod length xs)))"

text \<open>The branch \<open>depth == 0 or is_terminal_node(board)\<close> of \<open>minimax\<close>.\<close>

definition leaf_result :: "board \<Rightarrow> (score \<times> int option) option" where
  "leaf_result board =
     do { ai \<leftarrow> check_win board AI_PIECE;
          if ai then Some (PosInf, None)
          else do { human \<leftarrow> check_win board HUMAN_PIECE;
                    if human then Some (NegInf, None)
                    else do { s \<leftarrow> evaluate_board board AI_PIECE; Some (Fin s, None) } } }"

text \<open>The loop of version 2 that fills \<open>move_scores\<close>.\<close>

fun score_moves :: "board \<Rightarrow> int list \<Rightarrow> bool \<Rightarrow> (int \<times> int) list option" where
  "score_moves board [] maximizingPlayer = Some []"
| "score_moves board (move # moves) maximizingPlayer =
     do { temp_board \<leftarrow> make_move board move (if maximizingPlayer then AI_PIECE else HUMAN_PIECE);
          score \<leftarrow> evaluate_board temp_board AI_PIECE;
          rest \<leftarrow> score_moves board moves maximizingPlayer;
          Some ((score, move) # rest) }"

text \<open>
  \<open>sorted(move_scores, key=lambda x: x[0], reverse=...)\<close>: Python's sort is stable, also
  with \<open>reverse=True\<close>, so the descending sort is the stable sort on the negated key.
\<close>

definition order_moves :: "board \<Rightarrow> int list \<Rightarrow> bool \<Rightarrow> int list option" where
  "order_moves board valid_moves maximizingPlayer =
     do { move_scores \<leftarrow> score_moves board valid_moves maximizingPlayer;
          Some (if maximizingPlayer
                then map snd (sort_key (\<lambda>x. - fst x) move_scores)
                else map snd (sort_key fst move_scores)) }"

type_synonym search = "board \<Rightarrow> score \<Rightarrow> score \<Rightarrow> bool \<Rightarrow> stats
                         \<Rightarrow> ((score \<times> int option) \<times> stats) option"

text \<open>
  The maximizing loop over the moves still to try; \<open>recurse\<close> is \<open>minimax\<close> at
  \<open>depth - 1\<close>. The loop breaks when \<open>alpha >= beta\<close>.
\<close>

fun max_loop :: "search \<Rightarrow> board \<Rightarrow> int list \<Rightarrow> score \<Rightarrow> int option \<Rightarrow> score \<Rightarrow> score \<Rightarrow> stats
                   \<Rightarrow> ((score \<times> int option) \<times> stats) option" where
  "max_loop recurse board [] value best_move alpha beta st = Some ((value, best_move), st)"
| "max_loop recurse board (move # moves) value best_move alpha beta st =
     do { child_board \<leftarrow> make_move board move AI_PIECE;
          ((new_score, _), st1) \<leftarrow> recurse child_board alpha beta False st;
          let value1 = (if new_score > value then new_score else value);
              best_move1 = (if new_score > value then Some move else best_move);
              alpha1 = max alpha value1
          in if alpha1 \<ge> beta then Some ((value1, best_move1), st1)
             else max_loop recurse board moves value1 best_move1 alpha1 beta st1 }"

text \<open>The minimizing loop, its mirror.\<close>

fun min_loop :: "search \<Rightarrow> board \<Rightarrow> int list \<Rightarrow> score \<Rightarrow> int option \<Rightarrow> score \<Rightarrow> score \<Rightarrow> stats
                   \<Rightarrow> ((score \<times> int option) \<times> stats) option" where
  "min_loop recurse board [] value best_move alpha beta st = Some ((value, best_move), st)"
| "min_loop recurse board (move # moves) value best_move alpha beta st =
     do { child_board \<leftarrow> make_move board move HUMAN_PIECE;
          ((new_score, _), st1) \<leftarrow> recurse child_board alpha beta True st;
          let value1 = (if new_score < value then new_score else value);
              best_move1 = (if new_score < value then Some move else best_move);
              beta1 = min beta value1
          in if alpha \<ge> beta1 then Some ((value1, best_move1), st1)
             else min_loop recurse board moves value1 best_move1 alpha beta1 st1 }"

text \<open>The first two statements of \<open>minimax\<close>.\<close>

definition enter_node :: "stats \<Rightarrow> nat \<Rightarrow> stats" where
  "enter_node st depth =
     st\<lparr>nodes_visited := nodes_visited st + 1,
        max_depth_reached := max (max_depth_reached st) depth\<rparr>"

text \<open>
  \<open>minimax\<close>, by recursion on \<open>depth\<close>. The driver calls it with depth 1, 2, 3, ... and
  every recursive call passes \<open>depth - 1\<close> until \<open>depth == 0\<close>, so the depth is a natural
  number. At depth 0 the test \<open>depth == 0 or is_terminal_node(board)\<close> does not evaluate
  \<open>is_terminal_node\<close>.
\<close>

primrec minimax :: "env \<Rightarrow> int \<Rightarrow> nat \<Rightarrow> search" where
  "minimax e version 0 board alpha beta maximizingPlayer st =
     (let st1 = enter_node st 0
      in if deadline_passed e (nodes_visited st1)
         then do { s \<leftarrow> evaluate_board board AI_PIECE; Some ((Fin s, None), st1) }
         else do { r \<leftarrow> leaf_result board; Some (r, st1) })"
| "minimax e version (Suc d) board alpha beta maximizingPlayer st =
     (let st1 = enter_node st (Suc d)
      in if deadline_passed e (nodes_visited st1)
         then do { s \<leftarrow> evaluate_board board AI_PIECE; Some ((Fin s, None), st1) }
         else do {
           terminal \<leftarrow> is_terminal_node board;
           if terminal then do { r \<leftarrow> leaf_result board; Some (r, st1) }
           else do {
             valid_moves \<leftarrow> get_valid_moves board;
             valid_moves \<leftarrow> (if version = 2 then order_moves board valid_moves maximizingPlayer
                               else Some valid_moves);
             best_move \<leftarrow> py_choice (random_index e (nodes_visited st1)) valid_moves;
             if maximizingPlayer
             then max_loop (minimax e version d) board valid_moves NegInf (Some best_move)
                    alpha beta st1
             else min_loop (minimax e version d) board valid_moves PosInf (Some best_move)
                    alpha beta st1 } })"

text \<open>A board as \<open>create_board\<close> makes it: 6 rows of 5 cells.\<close>

definition wf_board :: "board \<Rightarrow> bool" where
  "wf_board board \<longleftrightarrow> int (length board) = ROWS \<and> list_all (\<lambda>r. int (length r) = COLS) board"

text \<open>The list position a column index denotes in a row of 5 cells.\<close>

definition norm_col :: "int \<Rightarrow> nat" where
  "norm_col col = nat (if col < 0 then col + COLS else col)"

text \<open>
  The loop \<open>while True\<close> of \<open>get_ai_move\<close>, from the turn with the given depth on. It
  ends only when the deadline test at the head of a turn holds, so it is a partial
  function: the outer \<open>None\<close> is "never returns", the inner \<open>None\<close> is "raised".
\<close>

partial_function (option) deepening_loop ::
  "env \<Rightarrow> int \<Rightarrow> board \<Rightarrow> nat \<Rightarrow> int option \<Rightarrow> stats \<Rightarrow> (int option \<times> stats) option option"
where
  "deepening_loop e version board depth best_move st =
     (if loop_deadline_passed e depth then Some (Some (best_move, st))
      else case minimax e version depth board NegInf PosInf True st of
             None \<Rightarrow> Some None
           | Some ((score, move), st1) \<Rightarrow>
               deepening_loop e version board (depth + 1)
                 (if finished_in_time e depth then move else best_move) st1)"

declare deepening_loop.simps [code]

text \<open>
  \<open>get_ai_move\<close>: the move and the two counters it returns (the elapsed time, a float, is
  left out).
\<close>

definition get_ai_move :: "env \<Rightarrow> int \<Rightarrow> board \<Rightarrow> (int option \<times> stats) option option" where
  "get_ai_move e version board =
     deepening_loop e version board 1 None \<lparr>nodes_visited = 0, max_depth_reached = 0\<rparr>"

text \<open>
  The two counters at the head of a later turn of that loop: \<open>loop_stats e version board
  depth st n\<close> is their value n turns after the turn with the given depth, which starts
  with the counters \<open>st\<close>, when the loop runs that long.
\<close>

primrec loop_stats :: "env \<Rightarrow> int \<Rightarrow> board \<Rightarrow> nat \<Rightarrow> stats \<Rightarrow> nat \<Rightarrow> stats" where
  "loop_stats e version board depth st 0 = st"
| "loop_stats e version board depth st (Suc n) =
     (case minimax e version depth board NegInf PosInf True st of
        None \<Rightarrow> st
      | Some (r, st1) \<Rightarrow> loop_stats e version board (depth + 1) st1 n)"

section \<open>Boards as objects of a store\<close>

text \<open>
  In Python a board is a list object whose elements are references to row objects, and
  \<open>new_board[row][col] = piece\<close> changes a row object in place. The store holds the row
  objects and the board objects, each named by its position; a new object is appended.
  A reference that names no object of the store does not arise in Python; the operations
  answer \<open>None\<close> for it.
\<close>

type_synonym ref = nat

record store =
  row_objs :: "int list list"
  board_objs :: "ref list list"

definition load_row :: "store \<Rightarrow> ref \<Rightarrow> int list option" where
  "load_row s a = (if a < length (row_objs s) then Some (row_objs s ! a) else None)"

definition load_board :: "store \<Rightarrow> ref \<Rightarrow> ref list option" where
  "load_board s r = (if r < length (board_objs s) then Some (board_objs s ! r) else None)"

text \<open>The value of a board: its rows, read through the references.\<close>

definition read_board :: "store \<Rightarrow> ref \<Rightarrow> board option" where
  "read_board s r = do { as \<leftarrow> load_board s r; those (map (load_row s) as) }"

text \<open>
  \<open>create_board\<close>: each turn of the loop makes a new row object \<open>[EMPTY] * COLS\<close> and
  appends it to the board.
\<close>

fun create_rows :: "store \<Rightarrow> int list \<Rightarrow> ref list \<Rightarrow> ref list \<times> store" where
  "create_rows s [] board = (board, s)"
| "create_rows s (row # rows) board =
     create_rows (s\<lparr>row_objs := row_objs s @ [replicate (nat COLS) EMPTY]\<rparr>) rows
       (board @ [length (row_objs s)])"

definition create_board_store :: "store \<Rightarrow> ref \<times> store" where
  "create_board_store s =
     (let (board, s') = create_rows s (py_range ROWS) []
      in (length (board_objs s'), s'\<lparr>board_objs := board_objs s' @ [board]\<rparr>))"

text \<open>
  \<open>copy.deepcopy(board)\<close>: a new board object whose rows are new row objects. The memo
  maps each row already copied to its copy, so a row that occurs twice in the board is
  copied once.
\<close>

fun copy_rows :: "store \<Rightarrow> (ref \<times> ref) list \<Rightarrow> ref list \<Rightarrow> (ref list \<times> store) option" where
  "copy_rows s memo [] = Some ([], s)"
| "copy_rows s memo (a # as) =
     (case map_of memo a of
        Some a' \<Rightarrow> do { (as', s') \<leftarrow> copy_rows s memo as; Some (a' # as', s') }
      | None \<Rightarrow> do { cells \<leftarrow> load_row s a;
                    (as', s') \<leftarrow> copy_rows (s\<lparr>row_objs := row_objs s @ [cells]\<rparr>)
                                  ((a, length (row_objs s)) # memo) as;
                    Some (length (row_objs s) # as', s') })"

definition deepcopy :: "store \<Rightarrow> ref \<Rightarrow> (ref \<times> store) option" where
  "deepcopy s r =
     do { as \<leftarrow> load_board s r;
          (as', s') \<leftarrow> copy_rows s [] as;
          Some (length (board_objs s'), s'\<lparr>board_objs := board_objs s' @ [as']\<rparr>) }"

text \<open>The loop of \<open>make_move\<close> on the store: the assignment updates the row object.\<close>

fun drop_loop_store :: "store \<Rightarrow> ref \<Rightarrow> int list \<Rightarrow> int \<Rightarrow> int \<Rightarrow> store option" where
  "drop_loop_store s new_board [] col piece = Some s"
| "drop_loop_store s new_board (row # rows) col piece =
     do { as \<leftarrow> load_board s new_board;
          a \<leftarrow> py_index as row;
          cells \<leftarrow> load_row s a;
          x \<leftarrow> py_index cells col;
          if x = EMPTY
          then do { cells' \<leftarrow> py_store cells col piece;
                    Some (s\<lparr>row_objs := (row_objs s)[a := cells']\<rparr>) }
          else drop_loop_store s new_board rows col piece }"

text \<open>
  \<open>make_move\<close> on the store: the reference it returns (\<open>None\<close> when it raises) and the
  store after the call. When the loop raises, nothing has been assigned yet.
\<close>

definition make_move_store :: "store \<Rightarrow> ref \<Rightarrow> int \<Rightarrow> int \<Rightarrow> ref option \<times> store" where
  "make_move_store s board col piece =
     (case deepcopy s board of
        None \<Rightarrow> (None, s)
      | Some (new_board, s1) \<Rightarrow>
          (case drop_loop_store s1 new_board (rev (py_range ROWS)) col piece of
             None \<Rightarrow> (None, s1)
           | Some s2 \<Rightarrow> (Some new_board, s2)))"

section \<open>Predicates of the specification\<close>

text \<open>
  The definitions of this section are not code of the program: they state, in the words of
  the specification, the properties the program is checked against, and name the concrete
  boards the counterexamples use.
\<close>

text \<open>The number of occupied cells of a column (read with the program's own indexing).\<close>

definition occupied_cells :: "board \<Rightarrow> int \<Rightarrow> nat option" where
  "occupied_cells board col =
     map_option (\<lambda>cs. length (filter (\<lambda>x. x \<noteq> EMPTY) cs)) (column_array board col)"

text \<open>A cell that can be read and is not \<open>EMPTY\<close>.\<close>

definition occupied :: "board \<Rightarrow> int \<Rightarrow> int \<Rightarrow> bool" where
  "occupied board row col = (case cell board row col of Some x \<Rightarrow> x \<noteq> EMPTY | None \<Rightarrow> False)"

text \<open>
  The gravity invariant: in every column, every cell below an occupied cell is occupied
  (row 0 is the top row, so "below" is a larger row index).
\<close>

definition gravity :: "board \<Rightarrow> bool" where
  "gravity board \<longleftrightarrow>
     (\<forall>col\<in>set (py_range COLS). \<forall>row\<in>set (py_range ROWS). \<forall>below\<in>set (py_range2 (row + 1) ROWS).
        occupied board row col \<longrightarrow> occupied board below col)"

text \<open>
  The boards reachable through \<open>create_board\<close> and \<open>make_move\<close> on a playable column
  with a player's piece.
\<close>

inductive reachable :: "board \<Rightarrow> bool" where
  start: "reachable create_board"
| move: "reachable b \<Longrightarrow> is_valid_move b col = Some True
         \<Longrightarrow> piece = HUMAN_PIECE \<or> piece = AI_PIECE
         \<Longrightarrow> make_move b col piece = Some b' \<Longrightarrow> reachable b'"

text \<open>A board whose column 0 is full.\<close>

definition column0_full :: board where
  "column0_full =
     [[1, 0, 0, 0, 0],
      [2, 0, 0, 0, 0],
      [1, 0, 0, 0, 0],
      [2, 0, 0, 0, 0],
      [1, 0, 0, 0, 0],
      [2, 0, 0, 0, 0]]"

text \<open>A full board on which the AI has four in a row in the top row.\<close>

definition full_board_with_win :: board where
  "full_board_with_win =
     [[2, 2, 2, 2, 1],
      [1, 1, 2, 1, 1],
      [2, 1, 1, 2, 1],
      [1, 2, 2, 1, 2],
      [2, 1, 1, 2, 1],
      [1, 2, 2, 1, 2]]"

text \<open>
  \<open>scoreWindow\<close> as the specification words it, cell by cell: "all four cells equal the
  piece", "exactly three cells equal the piece and the fourth is Empty", "exactly two cells
  equal the piece and the other two are Empty"; the opponent of a player is the other
  player.
\<close>

definition all_four :: "int list \<Rightarrow> int \<Rightarrow> bool" where
  "all_four w p \<longleftrightarrow> (\<forall>i\<in>{0..<4}. w ! i = p)"

definition three_and_empty :: "int list \<Rightarrow> int \<Rightarrow> bool" where
  "three_and_empty w p \<longleftrightarrow>
     (\<exists>i\<in>{0..<4}. w ! i = EMPTY \<and> (\<forall>j\<in>{0..<4}. j \<noteq> i \<longrightarrow> w ! j = p))"

definition two_and_two_empty :: "int list \<Rightarrow> int \<Rightarrow> bool" where
  "two_and_two_empty w p \<longleftrightarrow>
     (\<exists>i\<in>{0..<4}. \<exists>j\<in>{0..<4}. i < j \<and> w ! i = p \<and> w ! j = p
        \<and> (\<forall>k\<in>{0..<4}. k \<noteq> i \<and> k \<noteq> j \<longrightarrow> w ! k = EMPTY))"

definition opponent_of :: "int \<Rightarrow> int" where
  "opponent_of p = (if p = HUMAN_PIECE then AI_PIECE else HUMAN_PIECE)"

definition scoreWindow_spec :: "int list \<Rightarrow> int \<Rightarrow> int" where
  "scoreWindow_spec w p =
     (if all_four w p then 100
      else if three_and_empty w p then 5
      else if two_and_two_empty w p then 2
      else 0)
     + (if three_and_empty w (opponent_of p) then - 4 else 0)"

section \<open>Reference values for the search\<close>

text \<open>
  The definitions of this section are not code of the program either: the value the
  search is compared with, and the environments and inputs of the examples.
\<close>

text \<open>A window that lies on the 6 x 5 board.\<close>

definition in_board :: "(int \<times> int) list \<Rightarrow> bool" where
  "in_board w \<longleftrightarrow> list_all (\<lambda>(r, c). 0 \<le> r \<and> r < ROWS \<and> 0 \<le> c \<and> c < COLS) w"

text \<open>
  What a search with window \<open>(a, b)\<close> may return for a position of value \<open>v\<close>: the
  value itself when it lies strictly inside the window, otherwise a bound on the same side.
\<close>

definition bounds_value :: "'a::linorder \<Rightarrow> 'a \<Rightarrow> 'a \<Rightarrow> 'a \<Rightarrow> bool" where
  "bounds_value a b v s \<longleftrightarrow> (s \<le> a \<longrightarrow> v \<le> s) \<and> (b \<le> s \<longrightarrow> s \<le> v) \<and> (a < s \<and> s < b \<longrightarrow> s = v)"

text \<open>The score of a leaf.\<close>

definition static_value :: "board \<Rightarrow> score" where
  "static_value b = fst (the (leaf_result b))"

fun maxs :: "score list \<Rightarrow> score" where
  "maxs [] = NegInf"
| "maxs (x # xs) = max x (maxs xs)"

fun mins :: "score list \<Rightarrow> score" where
  "mins [] = PosInf"
| "mins (x # xs) = min x (mins xs)"

text \<open>
  The value of the game tree of depth \<open>d\<close> without pruning and without a deadline: the
  maximum, or minimum, over all valid moves.
\<close>

fun game_value :: "nat \<Rightarrow> board \<Rightarrow> bool \<Rightarrow> score" where
  "game_value 0 b mx = static_value b"
| "game_value (Suc d) b mx =
     (if the (is_terminal_node b) then static_value b
      else if mx
      then maxs (map (\<lambda>m. game_value d (the (make_move b m AI_PIECE)) False) (the (get_valid_moves b)))
      else mins (map (\<lambda>m. game_value d (the (make_move b m HUMAN_PIECE)) True) (the (get_valid_moves b))))"

text \<open>No time pressure: the deadline test is false at every call.\<close>

definition never_late :: "env \<Rightarrow> bool" where
  "never_late e \<longleftrightarrow> (\<forall>n. \<not> deadline_passed e n)"

text \<open>
  An environment in which the deadline never passes inside \<open>minimax\<close> and the loop of
  \<open>get_ai_move\<close> stops at the head of the turn with depth 2; one in which the deadline has passed from the start.
\<close>

definition never_late_env :: env where
  "never_late_env =
     \<lparr>deadline_passed = (\<lambda>n. False), random_index = (\<lambda>n. 0),
      loop_deadline_passed = (\<lambda>k. 2 \<le> k), finished_in_time = (\<lambda>k. True)\<rparr>"

definition late_env :: env where
  "late_env =
     \<lparr>deadline_passed = (\<lambda>n. True), random_index = (\<lambda>n. 0),
      loop_deadline_passed = (\<lambda>k. True), finished_in_time = (\<lambda>k. False)\<rparr>"

text \<open>The counters as \<open>get_ai_move\<close> resets them.\<close>

definition fresh_stats :: stats where
  "fresh_stats = \<lparr>nodes_visited = 0, max_depth_reached = 0\<rparr>"

text \<open>A move that is \<open>None\<close> or a playable column of \<open>[0, COLS)\<close>.\<close>

definition playable :: "board \<Rightarrow> int option \<Rightarrow> bool" where
  "playable b m \<longleftrightarrow> (\<forall>c. m = Some c \<longrightarrow> 0 \<le> c \<and> c < COLS \<and> is_valid_move b c = Some True)"

text \<open>
  The turns of the loop of \<open>get_ai_move\<close>, named by their depths 1, 2, ...:
  \<^item> \<open>first_stop e K\<close>: the turn with depth K is the first whose deadline test holds, so
    the loop runs the searches of depths 1 to K - 1 and returns;
  \<^item> \<open>no_search_in_time e K\<close>: none of these searches finished in time;
  \<^item> \<open>last_in_time e K j\<close>: the search of depth j is the last of them that finished in
    time.
\<close>

definition first_stop :: "env \<Rightarrow> nat \<Rightarrow> bool" where
  "first_stop e K \<longleftrightarrow>
     1 \<le> K \<and> loop_deadline_passed e K \<and> (\<forall>j\<in>{1..<K}. \<not> loop_deadline_passed e j)"

definition no_search_in_time :: "env \<Rightarrow> nat \<Rightarrow> bool" where
  "no_search_in_time e K \<longleftrightarrow> (\<forall>j\<in>{1..<K}. \<not> finished_in_time e j)"

definition last_in_time :: "env \<Rightarrow> nat \<Rightarrow> nat \<Rightarrow> bool" where
  "last_in_time e K j \<longleftrightarrow>
     1 \<le> j \<and> j < K \<and> finished_in_time e j \<and> (\<forall>i\<in>{Suc j..<K}. \<not> finished_in_time e i)"

section \<open>Predicates on stores\<close>

text \<open>Every object of \<open>s\<close> is an object of \<open>s'\<close>, unchanged.\<close>

definition keeps :: "store \<Rightarrow> store \<Rightarrow> bool" where
  "keeps s s' \<longleftrightarrow> prefix (row_objs s) (row_objs s') \<and> prefix (board_objs s) (board_objs s')"

text \<open>The store before any object is made.\<close>

definition empty_store :: store where
  "empty_store = \<lparr>row_objs = [], board_objs = []\<rparr>"

text \<open>The position a Python index denotes in a list of length \<open>n\<close>.\<close>

definition py_pos :: "nat \<Rightarrow> int \<Rightarrow> nat option" where
  "py_pos n i = (let j = (if i < 0 then i + int n else i)
                 in if 0 \<le> j \<and> j < int n then Some (nat j) else None)"

section \<open>Properties of the board model\<close>


lemma py_range_6: "py_range 6 = [0, 1, 2, 3, 4, 5]"
  by (simp add: py_range_def upto_rec1)

lemma py_range_5: "py_range 5 = [0, 1, 2, 3, 4]"
  by (simp add: py_range_def upto_rec1)


lemma py_index_in_range:
  "0 \<le> i \<Longrightarrow> i < int (length xs) \<Longrightarrow> py_index xs i = Some (xs ! nat i)"
  by (simp add: py_index_def)

lemma py_index_neg:
  "i < 0 \<Longrightarrow> - int (length xs) \<le> i \<Longrightarrow> py_index xs i = Some (xs ! nat (i + int (length xs)))"
  by (simp add: py_index_def Let_def)

lemma py_index_None_iff:
  "py_index xs i = None \<longleftrightarrow> i \<ge> int (length xs) \<or> i < - int (length xs)"
  by (auto simp add: py_index_def Let_def)

lemma wf_board_length: "wf_board b \<Longrightarrow> length b = 6"
  by (simp add: wf_board_def)

lemma wf_board_row: "wf_board b \<Longrightarrow> i < 6 \<Longrightarrow> length (b ! i) = 5"
  by (auto simp add: wf_board_def list_all_length)


lemma cell_wf:
  assumes "wf_board b" "0 \<le> row" "row < ROWS" "- COLS \<le> col" "col < COLS"
  shows "cell b row col = Some (b ! nat row ! norm_col col)"
proof -
  have r: "py_index b row = Some (b ! nat row)"
    using assms wf_board_length[OF assms(1)] by (simp add: py_index_in_range)
  have l: "length (b ! nat row) = 5"
    using assms by (intro wf_board_row) auto
  show ?thesis using assms l wf_board_length[OF assms(1)]
    by (simp add: cell_def py_index_def Let_def norm_col_def)
qed

lemma cell_wf_None:
  assumes "wf_board b" "0 \<le> row" "row < ROWS" "col < - COLS \<or> COLS \<le> col"
  shows "cell b row col = None"
proof -
  have r: "py_index b row = Some (b ! nat row)"
    using assms wf_board_length[OF assms(1)] by (simp add: py_index_in_range)
  have l: "length (b ! nat row) = 5"
    using assms by (intro wf_board_row) auto
  show ?thesis using assms l wf_board_length[OF assms(1)]
    by (auto simp add: cell_def py_index_def Let_def)
qed

lemma wf_create_board: "wf_board create_board"
  by (simp add: wf_board_def create_board_def py_range_6)

lemma is_valid_move_wf:
  assumes "wf_board b" "- COLS \<le> col" "col < COLS"
  shows "is_valid_move b col = Some (b ! 0 ! norm_col col = EMPTY)"
  using cell_wf[OF assms(1) _ _ assms(2,3), of 0] by (simp add: is_valid_move_def)

lemma valid_columns_loop_filter:
  "\<forall>c\<in>set cols. is_valid_move b c \<noteq> None \<Longrightarrow>
   valid_columns_loop b cols acc = Some (acc @ filter (\<lambda>c. is_valid_move b c = Some True) cols)"
proof (induction cols arbitrary: acc)
  case Nil then show ?case by simp
next
  case (Cons c cols)
  then obtain v where v: "is_valid_move b c = Some v" by auto
  with Cons show ?case by (cases v) auto
qed

lemma get_valid_moves_wf:
  assumes "wf_board b"
  shows "get_valid_moves b = Some (filter (\<lambda>c. is_valid_move b c = Some True) (py_range COLS))"
proof -
  have "\<forall>c\<in>set (py_range COLS). is_valid_move b c \<noteq> None"
    using is_valid_move_wf[OF assms] by (auto simp: py_range_5)
  from valid_columns_loop_filter[OF this, of "[]"] show ?thesis
    by (simp add: get_valid_moves_def)
qed

text \<open>
  Claim C6. On every 6 x 5 board \<open>get_valid_moves\<close> returns, without raising, exactly the
  columns of \<open>[0, COLS)\<close> for which \<open>is_valid_move\<close> returns \<open>True\<close>, in strictly
  ascending order.
\<close>

theorem get_valid_moves_exact:
  assumes "wf_board b"
  shows "\<exists>ms. get_valid_moves b = Some ms
           \<and> set ms = {c. 0 \<le> c \<and> c < COLS \<and> is_valid_move b c = Some True}
           \<and> sorted_wrt (<) ms"
proof -
  let ?ms = "filter (\<lambda>c. is_valid_move b c = Some True) (py_range COLS)"
  have 1: "get_valid_moves b = Some ?ms" by (rule get_valid_moves_wf[OF assms])
  have 2: "set ?ms = {c. 0 \<le> c \<and> c < COLS \<and> is_valid_move b c = Some True}"
    by (auto simp: py_range_def)
  have "sorted_wrt (<) (py_range COLS)" by (simp add: py_range_5)
  then have 3: "sorted_wrt (<) ?ms" by (rule sorted_wrt_filter)
  from 1 2 3 show ?thesis by blast
qed

theorem get_valid_moves_exact_witness:
  "wf_board create_board \<and> get_valid_moves create_board = Some [0, 1, 2, 3, 4]"
proof -
  have w: "wf_board create_board" by (rule wf_create_board)
  from get_valid_moves_exact[OF w] obtain ms where
    "get_valid_moves create_board = Some ms" by blast
  moreover have "get_valid_moves create_board = Some [0,1,2,3,4]"
    by (simp add: get_valid_moves_def py_range_5 py_range_6 is_valid_move_def cell_def py_index_def create_board_def)
  ultimately show ?thesis using w by simp
qed

lemma norm_col_less: "- COLS \<le> col \<Longrightarrow> col < COLS \<Longrightarrow> norm_col col < 5"
  by (auto simp add: norm_col_def)

lemma set_cell_wf:
  assumes "wf_board b" "0 \<le> row" "row < ROWS" "- COLS \<le> col" "col < COLS"
  shows "set_cell b row col piece = Some (b[nat row := (b ! nat row)[norm_col col := piece]])"
proof -
  have l: "length (b ! nat row) = 5"
    using assms by (intro wf_board_row) auto
  show ?thesis using assms l wf_board_length[OF assms(1)]
    by (simp add: set_cell_def py_index_def py_store_def Let_def norm_col_def)
qed

lemma py_range_ROWS_upt: "py_range ROWS = map int [0..<6]"
  by (simp add: py_range_6 upt_rec)

lemma drop_loop_desc:
  assumes wf: "wf_board b" and col: "- COLS \<le> col" "col < COLS" and n: "n \<le> 6"
  shows "((\<forall>i<n. b ! i ! norm_col col \<noteq> EMPTY) \<longrightarrow>
            drop_loop b (rev (map int [0..<n])) col piece = Some b)
       \<and> (\<forall>k<n. b ! k ! norm_col col = EMPTY \<and> (\<forall>i. k < i \<and> i < n \<longrightarrow> b ! i ! norm_col col \<noteq> EMPTY) \<longrightarrow>
            drop_loop b (rev (map int [0..<n])) col piece
              = Some (b[k := (b ! k)[norm_col col := piece]]))"
  using n
proof (induction n)
  case 0 then show ?case by simp
next
  case (Suc n)
  then have n: "n < 6" and IH: "((\<forall>i<n. b ! i ! norm_col col \<noteq> EMPTY) \<longrightarrow>
            drop_loop b (rev (map int [0..<n])) col piece = Some b)
       \<and> (\<forall>k<n. b ! k ! norm_col col = EMPTY \<and> (\<forall>i. k < i \<and> i < n \<longrightarrow> b ! i ! norm_col col \<noteq> EMPTY) \<longrightarrow>
            drop_loop b (rev (map int [0..<n])) col piece
              = Some (b[k := (b ! k)[norm_col col := piece]]))" by auto
  have c: "cell b (int n) col = Some (b ! n ! norm_col col)"
    using cell_wf[OF wf _ _ col, of "int n"] n by simp
  have s: "set_cell b (int n) col piece = Some (b[n := (b ! n)[norm_col col := piece]])"
    using set_cell_wf[OF wf _ _ col, of "int n"] n by simp
  have unf: "drop_loop b (rev (map int [0..<Suc n])) col piece =
     (if b ! n ! norm_col col = EMPTY then Some (b[n := (b ! n)[norm_col col := piece]])
      else drop_loop b (rev (map int [0..<n])) col piece)"
    by (simp add: c s)
  show ?case
  proof (intro conjI impI allI)
    assume "\<forall>i<Suc n. b ! i ! norm_col col \<noteq> EMPTY"
    then show "drop_loop b (rev (map int [0..<Suc n])) col piece = Some b"
      using IH unf by simp
  next
    fix k assume k: "k < Suc n"
      and h: "b ! k ! norm_col col = EMPTY \<and> (\<forall>i. k < i \<and> i < Suc n \<longrightarrow> b ! i ! norm_col col \<noteq> EMPTY)"
    show "drop_loop b (rev (map int [0..<Suc n])) col piece = Some (b[k := (b ! k)[norm_col col := piece]])"
    proof (cases "k = n")
      case True then show ?thesis using h unf by simp
    next
      case False
      then have kn: "k < n" using k by simp
      then have "b ! n ! norm_col col \<noteq> EMPTY" using h by simp
      moreover have "drop_loop b (rev (map int [0..<n])) col piece = Some (b[k := (b ! k)[norm_col col := piece]])"
        using IH kn h by simp
      ultimately show ?thesis using unf by simp
    qed
  qed
qed

lemma lowest_empty_exists:
  fixes P :: "nat \<Rightarrow> bool"
  assumes "\<exists>i<n. P i"
  shows "\<exists>k<n. P k \<and> (\<forall>i. k < i \<and> i < n \<longrightarrow> \<not> P i)"
proof -
  let ?S = "{i. i < n \<and> P i}"
  have fin: "finite ?S" by simp
  have ne: "?S \<noteq> {}" using assms by auto
  let ?k = "Max ?S"
  have "?k \<in> ?S" using Max_in[OF fin ne] .
  moreover have "\<forall>i. ?k < i \<and> i < n \<longrightarrow> \<not> P i"
  proof (intro allI impI notI)
    fix i assume "?k < i \<and> i < n" "P i"
    then have "i \<in> ?S" by simp
    then have "i \<le> ?k" using Max_ge[OF fin] by blast
    with \<open>?k < i \<and> i < n\<close> show False by simp
  qed
  ultimately show ?thesis by blast
qed

lemma make_move_cases:
  assumes wf: "wf_board b" and col: "- COLS \<le> col" "col < COLS"
  shows "((\<forall>i<6. b ! i ! norm_col col \<noteq> EMPTY) \<and> make_move b col piece = Some b)
       \<or> (\<exists>k<6. b ! k ! norm_col col = EMPTY \<and> (\<forall>i. k < i \<and> i < 6 \<longrightarrow> b ! i ! norm_col col \<noteq> EMPTY)
              \<and> make_move b col piece = Some (b[k := (b ! k)[norm_col col := piece]]))"
proof (cases "\<exists>i<6. b ! i ! norm_col col = EMPTY")
  case False
  then show ?thesis
    using drop_loop_desc[OF wf col, of 6 piece]
    unfolding make_move_def py_range_ROWS_upt by auto
next
  case True
  from lowest_empty_exists[OF True] obtain k where
    k: "k < 6" "b ! k ! norm_col col = EMPTY" "\<forall>i. k < i \<and> i < 6 \<longrightarrow> b ! i ! norm_col col \<noteq> EMPTY"
    by blast
  then have "make_move b col piece = Some (b[k := (b ! k)[norm_col col := piece]])"
    using drop_loop_desc[OF wf col, of 6 piece]
    unfolding make_move_def py_range_ROWS_upt by auto
  with k show ?thesis by blast
qed

lemma wf_board_update:
  assumes "wf_board b" "k < 6"
  shows "wf_board (b[k := (b ! k)[c := piece]])"
proof -
  have "length ((b ! k)[c := piece]) = 5" using wf_board_row[OF assms] by simp
  then show ?thesis using assms wf_board_row[OF assms(1)] wf_board_length[OF assms(1)]
    by (auto simp: wf_board_def list_all_length nth_list_update)
qed

lemma is_valid_move_Some_range:
  assumes "wf_board b" "is_valid_move b col = Some v"
  shows "- COLS \<le> col \<and> col < COLS"
proof (rule ccontr)
  assume "\<not> (- COLS \<le> col \<and> col < COLS)"
  then have "cell b 0 col = None" using cell_wf_None[OF assms(1), of 0 col] by auto
  then show False using assms(2) by (simp add: is_valid_move_def)
qed

lemma make_move_wf:
  assumes "wf_board b" "- COLS \<le> col" "col < COLS"
  shows "\<exists>b'. make_move b col piece = Some b' \<and> wf_board b'"
  using make_move_cases[OF assms, of piece] assms(1) wf_board_update[OF assms(1)]
  by auto

lemma column_array_wf:
  assumes wf: "wf_board b" and col: "- COLS \<le> col" "col < COLS"
  shows "column_array b col = Some (map (\<lambda>r. r ! norm_col col) b)"
proof -
  have u: "[0..<6] = [0, 1, 2, 3, 4, 5::nat]" by (simp add: upt_rec)
  have c: "\<And>row. 0 \<le> row \<Longrightarrow> row < 6 \<Longrightarrow> cell b row col = Some (b ! nat row ! norm_col col)"
    using cell_wf[OF wf _ _ col] by simp
  have "column_array b col = Some (map (\<lambda>i. b ! i ! norm_col col) [0..<6])"
    using c[of 0] c[of 1] c[of 2] c[of 3] c[of 4] c[of 5]
    by (simp add: column_array_def py_range_6 u)
  also have "map (\<lambda>i. b ! i ! norm_col col) [0..<6] = map (\<lambda>r. r ! norm_col col) (map (nth b) [0..<length b])"
    by (simp add: wf_board_length[OF wf])
  also have "\<dots> = map (\<lambda>r. r ! norm_col col) b" by (simp only: map_nth)
  finally show ?thesis .
qed

lemma count_occupied_update:
  assumes "k < length cs" "cs ! k = EMPTY" "piece \<noteq> EMPTY"
  shows "length (filter (\<lambda>x. x \<noteq> EMPTY) (cs[k := piece])) = length (filter (\<lambda>x. x \<noteq> EMPTY) cs) + 1"
proof -
  have 1: "cs = take k cs @ cs ! k # drop (Suc k) cs" using assms(1) by (rule id_take_nth_drop)
  have 2: "cs[k := piece] = take k cs @ piece # drop (Suc k) cs" using assms(1) by (rule upd_conv_take_nth_drop)
  have "length (filter (\<lambda>x. x \<noteq> EMPTY) cs) = length (filter (\<lambda>x. x \<noteq> EMPTY) (take k cs @ cs ! k # drop (Suc k) cs))"
    using 1 by simp
  then show ?thesis using assms(2,3) unfolding 2 by simp
qed

lemma cell_update_other:
  assumes "wf_board b" "k < 6" "0 \<le> c" "c < COLS" "nat c \<noteq> n"
  shows "cell (b[k := (b ! k)[n := piece]]) row c = cell b row c"
proof -
  have l: "length b = 6" by (rule wf_board_length[OF assms(1)])
  show ?thesis
  proof (cases "py_index b row")
    case None
    then show ?thesis by (simp add: cell_def py_index_def Let_def split: if_splits)
  next
    case (Some r)
    show ?thesis using assms l
      by (auto simp: cell_def py_index_def Let_def nth_list_update)
  qed
qed

text \<open>
  Claim C7. On every 6 x 5 board, for a column on which \<open>is_valid_move\<close> returns \<open>True\<close>
  and a piece that is not \<open>EMPTY\<close>, \<open>make_move\<close> returns a board with exactly one more
  occupied cell in that column, and every cell of every other column is unchanged.
\<close>

theorem make_move_frame:
  assumes wf: "wf_board b" and ok: "is_valid_move b col = Some True" and p: "piece \<noteq> EMPTY"
  shows "\<exists>b' n. make_move b col piece = Some b'
           \<and> occupied_cells b col = Some n \<and> occupied_cells b' col = Some (n + 1)
           \<and> (\<forall>row c. 0 \<le> c \<and> c < COLS \<and> c \<noteq> col \<and> c \<noteq> col + COLS \<longrightarrow> cell b' row c = cell b row c)"
proof -
  have col: "- COLS \<le> col" "col < COLS" using is_valid_move_Some_range[OF wf ok] by auto
  have top: "b ! 0 ! norm_col col = EMPTY" using is_valid_move_wf[OF wf col] ok by simp
  from make_move_cases[OF wf col, of piece] top obtain k where
    k: "k < 6" "b ! k ! norm_col col = EMPTY"
       "make_move b col piece = Some (b[k := (b ! k)[norm_col col := piece]])"
    by auto
  let ?b' = "b[k := (b ! k)[norm_col col := piece]]"
  let ?cs = "map (\<lambda>r. r ! norm_col col) b"
  have wf': "wf_board ?b'" by (rule wf_board_update[OF wf k(1)])
  have lk: "length (b ! k) = 5" by (rule wf_board_row[OF wf k(1)])
  have cs': "map (\<lambda>r. r ! norm_col col) ?b' = ?cs[k := piece]"
    using k(1) wf_board_length[OF wf] lk norm_col_less[OF col]
    by (simp add: map_update)
  have o: "occupied_cells b col = Some (length (filter (\<lambda>x. x \<noteq> EMPTY) ?cs))"
    by (simp add: occupied_cells_def column_array_wf[OF wf col])
  have "length (filter (\<lambda>x. x \<noteq> EMPTY) (?cs[k := piece])) = length (filter (\<lambda>x. x \<noteq> EMPTY) ?cs) + 1"
    using k(1,2) wf_board_length[OF wf] p by (intro count_occupied_update) auto
  then have o': "occupied_cells ?b' col = Some (length (filter (\<lambda>x. x \<noteq> EMPTY) ?cs) + 1)"
    by (simp add: occupied_cells_def column_array_wf[OF wf' col] cs')
  have fr: "\<forall>row c. 0 \<le> c \<and> c < COLS \<and> c \<noteq> col \<and> c \<noteq> col + COLS \<longrightarrow> cell ?b' row c = cell b row c"
  proof (intro allI impI)
    fix row c assume c: "0 \<le> c \<and> c < COLS \<and> c \<noteq> col \<and> c \<noteq> col + COLS"
    then have "nat c \<noteq> norm_col col" using col by (auto simp: norm_col_def)
    then show "cell ?b' row c = cell b row c"
      using cell_update_other[OF wf k(1), of c "norm_col col"] c by simp
  qed
  from k(3) o o' fr show ?thesis by blast
qed

lemma create_board_eq:
  "create_board = [[0,0,0,0,0],[0,0,0,0,0],[0,0,0,0,0],[0,0,0,0,0],[0,0,0,0,0],[0,0,0,0,0]]"
  by (simp add: create_board_def py_range_6 eval_nat_numeral)

lemma occupied_wf:
  assumes "wf_board b" "0 \<le> row" "row < ROWS" "0 \<le> col" "col < COLS"
  shows "occupied b row col \<longleftrightarrow> b ! nat row ! nat col \<noteq> EMPTY"
  using cell_wf[OF assms(1,2,3), of col] assms(4,5) by (simp add: occupied_def norm_col_def)

lemma gravity_wf:
  assumes wf: "wf_board b"
  shows "gravity b \<longleftrightarrow> (\<forall>c<5. \<forall>i<6. \<forall>j<6. i < j \<longrightarrow> b ! i ! c \<noteq> EMPTY \<longrightarrow> b ! j ! c \<noteq> EMPTY)"
proof
  assume g: "gravity b"
  show "\<forall>c<5. \<forall>i<6. \<forall>j<6. i < j \<longrightarrow> b ! i ! c \<noteq> EMPTY \<longrightarrow> b ! j ! c \<noteq> EMPTY"
  proof (intro allI impI)
    fix c i j :: nat assume h: "c < 5" "i < 6" "j < 6" "i < j" "b ! i ! c \<noteq> EMPTY"
    have "int c \<in> set (py_range COLS)" "int i \<in> set (py_range ROWS)"
      "int j \<in> set (py_range2 (int i + 1) ROWS)"
      using h by (auto simp: py_range_def py_range2_def)
    moreover have "occupied b (int i) (int c)" using occupied_wf[OF wf, of "int i" "int c"] h by simp
    ultimately have "occupied b (int j) (int c)" using g unfolding gravity_def by blast
    then show "b ! j ! c \<noteq> EMPTY" using occupied_wf[OF wf, of "int j" "int c"] h by simp
  qed
next
  assume r: "\<forall>c<5. \<forall>i<6. \<forall>j<6. i < j \<longrightarrow> b ! i ! c \<noteq> EMPTY \<longrightarrow> b ! j ! c \<noteq> EMPTY"
  show "gravity b" unfolding gravity_def
  proof (intro ballI impI)
    fix col row below
    assume h: "col \<in> set (py_range COLS)" "row \<in> set (py_range ROWS)"
      "below \<in> set (py_range2 (row + 1) ROWS)" "occupied b row col"
    then have rg: "0 \<le> col" "col < 5" "0 \<le> row" "row < 6" "row < below" "below < 6"
      by (auto simp: py_range_def py_range2_def)
    then have "b ! nat row ! nat col \<noteq> EMPTY" using occupied_wf[OF wf, of row col] h(4) by simp
    then have "b ! nat below ! nat col \<noteq> EMPTY"
      using r[rule_format, of "nat col" "nat row" "nat below"] rg by simp
    then show "occupied b below col" using occupied_wf[OF wf, of below col] rg by simp
  qed
qed

lemma gravity_create_board: "gravity create_board"
  unfolding gravity_wf[OF wf_create_board]
  by (auto simp: create_board_def py_range_6 nth_Cons' )

lemma gravity_make_move:
  assumes wf: "wf_board b" and g: "gravity b" and ok: "is_valid_move b col = Some True"
  shows "\<exists>b'. make_move b col piece = Some b' \<and> wf_board b' \<and> gravity b'"
proof -
  have col: "- COLS \<le> col" "col < COLS" using is_valid_move_Some_range[OF wf ok] by auto
  let ?c = "norm_col col"
  have c5: "?c < 5" by (rule norm_col_less[OF col])
  have top: "b ! 0 ! ?c = EMPTY" using is_valid_move_wf[OF wf col] ok by simp
  from make_move_cases[OF wf col, of piece] top obtain k where
    k: "k < 6" "b ! k ! ?c = EMPTY" "\<forall>i. k < i \<and> i < 6 \<longrightarrow> b ! i ! ?c \<noteq> EMPTY"
       "make_move b col piece = Some (b[k := (b ! k)[?c := piece]])"
    by auto
  let ?b' = "b[k := (b ! k)[?c := piece]]"
  have wf': "wf_board ?b'" by (rule wf_board_update[OF wf k(1)])
  have G: "\<forall>c<5. \<forall>i<6. \<forall>j<6. i < j \<longrightarrow> b ! i ! c \<noteq> EMPTY \<longrightarrow> b ! j ! c \<noteq> EMPTY"
    using g gravity_wf[OF wf] by simp
  have lb: "length b = 6" by (rule wf_board_length[OF wf])
  have lk: "length (b ! k) = 5" by (rule wf_board_row[OF wf k(1)])
  have nth': "\<And>i c. i < 6 \<Longrightarrow> c < 5 \<Longrightarrow> ?b' ! i ! c = (if i = k \<and> c = ?c then piece else b ! i ! c)"
    using lb lk k(1) c5 by (auto simp: nth_list_update)
  have "\<forall>c<5. \<forall>i<6. \<forall>j<6. i < j \<longrightarrow> ?b' ! i ! c \<noteq> EMPTY \<longrightarrow> ?b' ! j ! c \<noteq> EMPTY"
  proof (intro allI impI)
    fix c i j :: nat assume h: "c < 5" "i < 6" "j < 6" "i < j" "?b' ! i ! c \<noteq> EMPTY"
    have ni: "?b' ! i ! c = (if i = k \<and> c = ?c then piece else b ! i ! c)"
      using nth'[of i c] h by simp
    have nj: "?b' ! j ! c = (if j = k \<and> c = ?c then piece else b ! j ! c)"
      using nth'[of j c] h by simp
    have Gc: "\<And>i j. i < 6 \<Longrightarrow> j < 6 \<Longrightarrow> i < j \<Longrightarrow> b ! i ! c \<noteq> EMPTY \<Longrightarrow> b ! j ! c \<noteq> EMPTY"
      using G h(1) by blast
    show "?b' ! j ! c \<noteq> EMPTY"
    proof (cases "c = ?c")
      case False
      then have "b ! i ! c \<noteq> EMPTY" using h(5) ni by simp
      then have "b ! j ! c \<noteq> EMPTY" using Gc[of i j] h by simp
      then show ?thesis using nj False by simp
    next
      case True
      show ?thesis
      proof (cases "j = k")
        case jk: True
        then have "i \<noteq> k" using h by simp
        then have "b ! i ! c \<noteq> EMPTY" using h(5) ni by simp
        then have "b ! k ! c \<noteq> EMPTY" using Gc[of i k] h jk by simp
        then show ?thesis using k(2) True by simp
      next
        case jk: False
        show ?thesis
        proof (cases "i = k")
          case ik: True
          then have "b ! j ! ?c \<noteq> EMPTY" using k(3) h by simp
          then show ?thesis using jk nj True by simp
        next
          case ik: False
          then have "b ! i ! c \<noteq> EMPTY" using h(5) ni by simp
          then have "b ! j ! c \<noteq> EMPTY" using Gc[of i j] h by simp
          then show ?thesis using jk nj by simp
        qed
      qed
    qed
  qed
  then have "gravity ?b'" using gravity_wf[OF wf'] by simp
  with k(4) wf' show ?thesis by blast
qed

lemma reachable_wf_gravity: "reachable b \<Longrightarrow> wf_board b \<and> gravity b"
proof (induction rule: reachable.induct)
  case start
  show ?case using wf_create_board gravity_create_board by simp
next
  case (move b col piece b')
  then show ?case using gravity_make_move[of b col piece] by auto
qed

text \<open>
  Claim C8. The gravity invariant holds for \<open>create_board\<close>, is preserved by
  \<open>make_move\<close> on a playable column of a 6 x 5 board, and so holds for every reachable
  board.
\<close>

theorem gravity_invariant:
  "gravity create_board
   \<and> (\<forall>b col piece. wf_board b \<and> gravity b \<and> is_valid_move b col = Some True \<longrightarrow>
          (\<exists>b'. make_move b col piece = Some b' \<and> wf_board b' \<and> gravity b'))
   \<and> (\<forall>b. reachable b \<longrightarrow> gravity b)"
  using gravity_create_board gravity_make_move reachable_wf_gravity by blast

lemma make_move_create_board_2:
  "make_move create_board 2 AI_PIECE =
     Some [[0,0,0,0,0],[0,0,0,0,0],[0,0,0,0,0],[0,0,0,0,0],[0,0,0,0,0],[0,0,2,0,0]]"
  by (simp add: make_move_def create_board_eq py_range_6 cell_def set_cell_def py_index_def py_store_def)

theorem gravity_invariant_witness:
  "wf_board create_board \<and> gravity create_board \<and> is_valid_move create_board 2 = Some True
   \<and> reachable [[0,0,0,0,0],[0,0,0,0,0],[0,0,0,0,0],[0,0,0,0,0],[0,0,0,0,0],[0,0,2,0,0]]
   \<and> gravity [[0,0,0,0,0],[0,0,0,0,0],[0,0,0,0,0],[0,0,0,0,0],[0,0,0,0,0],[0,0,2,0,0]]"
proof -
  let ?b = "[[0,0,0,0,0],[0,0,0,0,0],[0,0,0,0,0],[0,0,0,0,0],[0,0,0,0,0],[0,0,2,0,0::int]]"
  have w: "wf_board create_board" by (rule wf_create_board)
  have v: "is_valid_move create_board 2 = Some True"
    by (simp add: is_valid_move_def cell_def py_index_def create_board_eq)
  have r: "reachable ?b"
    using reachable.move[OF reachable.start v _ make_move_create_board_2] by simp
  from gravity_invariant r have "gravity create_board" "gravity ?b" by blast+
  with w v r show ?thesis by simp
qed

theorem make_move_frame_witness:
  "wf_board create_board \<and> is_valid_move create_board 2 = Some True \<and> AI_PIECE \<noteq> EMPTY
   \<and> occupied_cells create_board 2 = Some 0
   \<and> occupied_cells [[0,0,0,0,0],[0,0,0,0,0],[0,0,0,0,0],[0,0,0,0,0],[0,0,0,0,0],[0,0,2,0,0]] 2 = Some 1"
proof -
  have w: "wf_board create_board" by (rule wf_create_board)
  have v: "is_valid_move create_board 2 = Some True"
    by (simp add: is_valid_move_def cell_def py_index_def create_board_eq)
  have p: "AI_PIECE \<noteq> EMPTY" by simp
  have o: "occupied_cells create_board 2 = Some 0"
    by (simp add: occupied_cells_def column_array_def cell_def py_index_def create_board_eq py_range_6)
  from make_move_frame[OF w v p] o make_move_create_board_2 w v show ?thesis by auto
qed

text \<open>
  Claim C3, as stated, fails: on a board whose column 0 is full, \<open>make_move\<close> on
  column 0 returns normally, and returns the position unchanged.
\<close>

theorem make_move_full_column_counterexample:
  "is_valid_move column0_full 0 = Some False
   \<and> make_move column0_full 0 AI_PIECE = Some column0_full"
  by (simp add: is_valid_move_def make_move_def column0_full_def py_range_6 cell_def py_index_def)

text \<open>
  Claim C3, amended. On every 6 x 5 board that satisfies the gravity invariant, for a column
  on which \<open>is_valid_move\<close> returns \<open>False\<close>, \<open>make_move\<close> returns normally a board equal
  to its input: the full column is not signalled. Callers test \<open>is_valid_move\<close> first.
\<close>

theorem make_move_full_column:
  assumes wf: "wf_board b" and g: "gravity b" and full: "is_valid_move b col = Some False"
  shows "make_move b col piece = Some b"
proof -
  have col: "- COLS \<le> col" "col < COLS" using is_valid_move_Some_range[OF wf full] by auto
  let ?c = "norm_col col"
  have c5: "?c < 5" by (rule norm_col_less[OF col])
  have top: "b ! 0 ! ?c \<noteq> EMPTY" using is_valid_move_wf[OF wf col] full by simp
  have G: "\<forall>c<5. \<forall>i<6. \<forall>j<6. i < j \<longrightarrow> b ! i ! c \<noteq> EMPTY \<longrightarrow> b ! j ! c \<noteq> EMPTY"
    using g gravity_wf[OF wf] by simp
  have "\<forall>i<6. b ! i ! ?c \<noteq> EMPTY"
  proof (intro allI impI)
    fix i :: nat assume "i < 6"
    show "b ! i ! ?c \<noteq> EMPTY"
    proof (cases "i = 0")
      case True then show ?thesis using top by simp
    next
      case False
      then have "0 < i" by simp
      with G c5 \<open>i < 6\<close> top show ?thesis by (metis zero_less_numeral)
    qed
  qed
  then show ?thesis using make_move_cases[OF wf col, of piece] by auto
qed

theorem make_move_full_column_witness:
  "wf_board column0_full \<and> gravity column0_full \<and> is_valid_move column0_full 0 = Some False
   \<and> make_move column0_full 0 HUMAN_PIECE = Some column0_full"
proof -
  have w: "wf_board column0_full" by (simp add: wf_board_def column0_full_def)
  have g: "gravity column0_full"
    unfolding gravity_wf[OF w] by (auto simp: column0_full_def nth_Cons' )
  have f: "is_valid_move column0_full 0 = Some False"
    by (simp add: is_valid_move_def column0_full_def cell_def py_index_def)
  from make_move_full_column[OF w g f] w g f show ?thesis by simp
qed

section \<open>Out-of-range columns and draws\<close>

text \<open>
  Claim C4, as stated, fails: on the empty board \<open>is_valid_move\<close> raises IndexError for
  column 5, and for column -1 it returns \<open>True\<close> (Python reads the last column).
\<close>

theorem is_valid_move_out_of_range_counterexample:
  "is_valid_move create_board 5 = None \<and> is_valid_move create_board (- 1) = Some True"
  by (simp add: is_valid_move_def cell_def py_index_def create_board_def py_range_6)

text \<open>
  Claim C4, amended. On every 6 x 5 board \<open>is_valid_move\<close> raises IndexError for
  \<open>col \<ge> COLS\<close> and for \<open>col < -COLS\<close>; for \<open>-COLS \<le> col < 0\<close> it answers for column
  \<open>col + COLS\<close>; for a column of \<open>[0, COLS)\<close> it returns whether the top cell is empty.
  The caller checks the range before it calls.
\<close>

theorem is_valid_move_by_range:
  assumes "wf_board b"
  shows "(COLS \<le> col \<or> col < - COLS \<longrightarrow> is_valid_move b col = None)
       \<and> (- COLS \<le> col \<and> col < 0 \<longrightarrow> is_valid_move b col = is_valid_move b (col + COLS))
       \<and> (0 \<le> col \<and> col < COLS \<longrightarrow> is_valid_move b col = Some (cell b 0 col = Some EMPTY))"
proof (intro conjI impI)
  assume "COLS \<le> col \<or> col < - COLS"
  then have "cell b 0 col = None" using cell_wf_None[OF assms, of 0 col] by auto
  then show "is_valid_move b col = None" by (simp add: is_valid_move_def)
next
  assume a: "- COLS \<le> col \<and> col < 0"
  then have "norm_col (col + COLS) = norm_col col" by (simp add: norm_col_def)
  then show "is_valid_move b col = is_valid_move b (col + COLS)"
    using a is_valid_move_wf[OF assms, of col] is_valid_move_wf[OF assms, of "col + COLS"]
    by simp
next
  assume a: "0 \<le> col \<and> col < COLS"
  then show "is_valid_move b col = Some (cell b 0 col = Some EMPTY)"
    using cell_wf[OF assms, of 0 col] by (simp add: is_valid_move_def)
qed

theorem is_valid_move_by_range_witness:
  "wf_board create_board \<and> is_valid_move create_board 7 = None
   \<and> is_valid_move create_board (- 2) = is_valid_move create_board 3
   \<and> is_valid_move create_board 3 = Some True"
proof -
  have w: "wf_board create_board" by (rule wf_create_board)
  have c: "cell create_board 0 3 = Some EMPTY"
    by (simp add: cell_def py_index_def create_board_def py_range_6)
  show ?thesis
    using w c is_valid_move_by_range[OF w, of 7] is_valid_move_by_range[OF w, of "- 2"]
      is_valid_move_by_range[OF w, of 3]
    by simp
qed

lemma py_range_2: "py_range 2 = [0, 1]"
  by (simp add: py_range_def upto_rec1)

lemma py_range_3: "py_range 3 = [0, 1, 2]"
  by (simp add: py_range_def upto_rec1)

lemma py_range_4: "py_range 4 = [0, 1, 2, 3]"
  by (simp add: py_range_def upto_rec1)

lemma py_range2_3_6: "py_range2 3 6 = [3, 4, 5]"
  by (simp add: py_range2_def upto_rec1)

text \<open>
  Claim C2, as stated, fails: on a full board where the AI has four in a row
  \<open>check_tie\<close> returns \<open>True\<close>.
\<close>

theorem check_tie_counterexample:
  "check_tie full_board_with_win = Some True
   \<and> check_win full_board_with_win AI_PIECE = Some True"
  by (simp add: check_tie_def check_win_def horizontal_windows_def full_board_with_win_def
      py_range_5 py_range_6 py_range_2 cell_def py_index_def)

lemma all_top_occupied_wf:
  assumes "wf_board b" "\<forall>c\<in>set cols. 0 \<le> c \<and> c < COLS"
  shows "all_top_occupied b cols = Some (\<forall>c\<in>set cols. is_valid_move b c = Some False)"
  using assms(2)
proof (induction cols)
  case Nil then show ?case by simp
next
  case (Cons c cols)
  then have c: "0 \<le> c" "c < COLS" by auto
  have "cell b 0 c = Some (b ! 0 ! norm_col c)"
    using cell_wf[OF assms(1), of 0 c] c by simp
  then show ?case using Cons by (auto simp: is_valid_move_def)
qed

lemma first_version_tie_loop_eq: "first_version_tie_loop b cols = all_top_occupied b cols"
  by (induction cols) (auto intro: Option.bind_cong)

lemma first_version_check_tie_eq: "first_version_check_tie b = check_tie b"
  by (simp add: first_version_check_tie_def check_tie_def first_version_tie_loop_eq)

text \<open>
  Claim C2, amended. On every 6 x 5 board \<open>check_tie\<close> returns \<open>True\<close> iff no column of
  \<open>[0, COLS)\<close> is playable (every top cell is occupied), whether or not a side has four
  in a row; both source files' \<open>check_tie\<close> agree.
\<close>

theorem check_tie_iff_top_row_full:
  assumes "wf_board b"
  shows "check_tie b = Some (\<forall>col. 0 \<le> col \<and> col < COLS \<longrightarrow> is_valid_move b col = Some False)
       \<and> first_version_check_tie b = check_tie b"
proof -
  have "check_tie b = Some (\<forall>c\<in>set (py_range COLS). is_valid_move b c = Some False)"
    unfolding check_tie_def by (rule all_top_occupied_wf[OF assms]) (simp add: py_range_5)
  moreover have "(\<forall>c\<in>set (py_range COLS). is_valid_move b c = Some False)
     \<longleftrightarrow> (\<forall>col. 0 \<le> col \<and> col < COLS \<longrightarrow> is_valid_move b col = Some False)"
    by (auto simp: py_range_def)
  ultimately show ?thesis by (simp add: first_version_check_tie_eq)
qed

theorem check_tie_iff_top_row_full_witness:
  "wf_board create_board \<and> check_tie create_board = Some False
   \<and> first_version_check_tie create_board = Some False"
proof -
  have w: "wf_board create_board" by (rule wf_create_board)
  have "is_valid_move create_board 0 = Some True"
    by (simp add: is_valid_move_def cell_def py_index_def create_board_def py_range_6)
  then have "\<not> (\<forall>col. 0 \<le> col \<and> col < COLS \<longrightarrow> is_valid_move create_board col = Some False)"
    by (auto intro: exI[of _ 0])
  then show ?thesis using w check_tie_iff_top_row_full[OF w] by simp
qed

section \<open>The window score\<close>

lemma set_upt_4: "{0..<4::nat} = {0, 1, 2, 3}"
  by auto

lemma length_4_cases:
  assumes "length w = 4"
  obtains a b c d where "w = [a, b, c, d]"
proof -
  from assms obtain a w1 where 1: "w = a # w1" "length w1 = 3" by (cases w) auto
  then obtain b w2 where 2: "w1 = b # w2" "length w2 = 2" by (cases w1) auto
  then obtain c w3 where 3: "w2 = c # w3" "length w3 = 1" by (cases w2) auto
  then obtain d where 4: "w3 = [d]" by (cases w3) auto
  from 1 2 3 4 that show ?thesis by simp
qed

lemma evaluate_window_4:
  assumes p: "p = HUMAN_PIECE \<or> p = AI_PIECE"
  shows "evaluate_window [a, b, c, d] p = scoreWindow_spec [a, b, c, d] p"
proof -
  have A: "all_four [a,b,c,d] p \<longleftrightarrow> count_list [a,b,c,d] p = 4"
    by (auto simp: all_four_def set_upt_4)
  have T: "\<And>q. q \<noteq> EMPTY \<Longrightarrow> three_and_empty [a,b,c,d] q
        \<longleftrightarrow> count_list [a,b,c,d] q = 3 \<and> count_list [a,b,c,d] EMPTY = 1"
    by (auto simp: three_and_empty_def set_upt_4)
  have W: "p \<noteq> EMPTY \<Longrightarrow> two_and_two_empty [a,b,c,d] p
        \<longleftrightarrow> count_list [a,b,c,d] p = 2 \<and> count_list [a,b,c,d] EMPTY = 2"
    by (auto simp: two_and_two_empty_def set_upt_4)
  have pe: "p \<noteq> EMPTY" "opponent_of p \<noteq> EMPTY" using p by (auto simp: opponent_of_def)
  have op: "(if p = AI_PIECE then HUMAN_PIECE else AI_PIECE) = opponent_of p"
    using p by (auto simp: opponent_of_def)
  show ?thesis
    unfolding evaluate_window_def scoreWindow_spec_def op Let_def A T[OF pe(1)] T[OF pe(2)] W[OF pe(1)]
    by simp
qed

text \<open>
  Claim C9. For every window of four cells and every player's piece, \<open>evaluate_window\<close>
  returns the score the specification words: 100 for four of the piece, else 5 for three
  and an empty cell, else 2 for two and two empty cells, plus -4 when the opponent has
  three and an empty cell.
\<close>

theorem evaluate_window_spec:
  assumes "length window = 4" and "piece = HUMAN_PIECE \<or> piece = AI_PIECE"
  shows "evaluate_window window piece = scoreWindow_spec window piece"
proof -
  from assms(1) obtain a b c d where "window = [a, b, c, d]" by (rule length_4_cases)
  then show ?thesis using evaluate_window_4[OF assms(2)] by simp
qed

theorem evaluate_window_spec_witness:
  "length [AI_PIECE, AI_PIECE, EMPTY, AI_PIECE] = 4 \<and> evaluate_window [AI_PIECE, AI_PIECE, EMPTY, AI_PIECE] AI_PIECE = 5
   \<and> scoreWindow_spec [AI_PIECE, AI_PIECE, EMPTY, AI_PIECE] AI_PIECE = 5
   \<and> evaluate_window [AI_PIECE, AI_PIECE, EMPTY, AI_PIECE] HUMAN_PIECE = - 4
   \<and> scoreWindow_spec [AI_PIECE, AI_PIECE, EMPTY, AI_PIECE] HUMAN_PIECE = - 4"
proof -
  have e: "evaluate_window [AI_PIECE, AI_PIECE, EMPTY, AI_PIECE] AI_PIECE = 5"
    "evaluate_window [AI_PIECE, AI_PIECE, EMPTY, AI_PIECE] HUMAN_PIECE = - 4"
    by (simp_all add: evaluate_window_def)
  show ?thesis
    using e evaluate_window_spec[of "[AI_PIECE, AI_PIECE, EMPTY, AI_PIECE]" AI_PIECE]
      evaluate_window_spec[of "[AI_PIECE, AI_PIECE, EMPTY, AI_PIECE]" HUMAN_PIECE]
    by simp
qed

section \<open>Properties of the search\<close>

lemma all_equal_total:
  assumes "wf_board b" "in_board w"
  shows "all_equal b p w \<noteq> None"
  using assms(2)
proof (induction w)
  case Nil then show ?case by simp
next
  case (Cons rc w)
  obtain r c where rc: "rc = (r, c)" by (cases rc)
  with Cons have rg: "0 \<le> r" "r < ROWS" "0 \<le> c" "c < COLS" and w: "in_board w"
    by (auto simp: in_board_def)
  have "cell b r c = Some (b ! nat r ! norm_col c)"
    using cell_wf[OF assms(1) rg(1,2), of c] rg by simp
  then show ?case using Cons.IH[OF w] rc by auto
qed

lemma scan_windows_total:
  assumes "wf_board b" "list_all in_board ws"
  shows "scan_windows b p ws \<noteq> None"
  using assms(2)
proof (induction ws)
  case Nil then show ?case by simp
next
  case (Cons w ws)
  then obtain v where "all_equal b p w = Some v" using all_equal_total[OF assms(1), of w p] by auto
  then show ?case using Cons by (cases v) auto
qed

lemma windows_in_board:
  "list_all in_board (horizontal_windows @ vertical_windows @ diag_down_windows @ diag_up_windows)"
  by (simp add: horizontal_windows_def vertical_windows_def diag_down_windows_def diag_up_windows_def
      py_range_6 py_range_5 py_range_2 py_range_3 py_range2_3_6 in_board_def)

lemma check_win_total:
  assumes "wf_board b"
  shows "check_win b p \<noteq> None"
  unfolding check_win_def by (rule scan_windows_total[OF assms windows_in_board])

lemma check_tie_total:
  assumes "wf_board b"
  shows "check_tie b \<noteq> None"
  unfolding check_tie_def using all_top_occupied_wf[OF assms, of "py_range COLS"]
  by (simp add: py_range_5)

lemma is_terminal_node_total:
  assumes "wf_board b"
  shows "is_terminal_node b \<noteq> None"
proof -
  obtain h where h: "check_win b HUMAN_PIECE = Some h" using check_win_total[OF assms] by blast
  obtain a where a: "check_win b AI_PIECE = Some a" using check_win_total[OF assms] by blast
  obtain t where t: "check_tie b = Some t" using check_tie_total[OF assms] by blast
  show ?thesis unfolding is_terminal_node_def using h a t by auto
qed

lemma py_index_row_wf:
  "wf_board b \<Longrightarrow> 0 \<le> row \<Longrightarrow> row < ROWS \<Longrightarrow> py_index b row = Some (b ! nat row)"
  using wf_board_length[of b] by (simp add: py_index_in_range)

lemma those_total: "None \<notin> set xs \<Longrightarrow> those xs \<noteq> None"
proof (induction xs)
  case Nil then show ?case by simp
next
  case (Cons a xs)
  then show ?case by (cases a) auto
qed

lemma horizontal_scores_total:
  assumes "wf_board b"
  shows "horizontal_scores b p \<noteq> None"
  unfolding horizontal_scores_def
  by (rule those_total) (auto simp: py_range_6 py_range_2 py_index_row_wf[OF assms])

lemma column_array_total:
  assumes "wf_board b" "0 \<le> col" "col < COLS"
  shows "column_array b col \<noteq> None"
  using column_array_wf[OF assms(1), of col] assms by simp

lemma vertical_scores_total:
  assumes "wf_board b"
  shows "vertical_scores b p \<noteq> None"
proof -
  have "those [do { col_array \<leftarrow> column_array b col;
                    Some [evaluate_window (py_slice col_array row (row + 4)) p.
                            row \<leftarrow> py_range (ROWS - 3)] }.
                 col \<leftarrow> py_range COLS] \<noteq> None"
    by (rule those_total) (auto simp: py_range_5 column_array_wf[OF assms])
  then show ?thesis unfolding vertical_scores_def by auto
qed

lemma cell_total:
  "wf_board b \<Longrightarrow> 0 \<le> row \<Longrightarrow> row < ROWS \<Longrightarrow> 0 \<le> col \<Longrightarrow> col < COLS \<Longrightarrow> cell b row col \<noteq> None"
  using cell_wf[of b row col] by simp

lemma diag_down_scores_total:
  assumes "wf_board b"
  shows "diag_down_scores b p \<noteq> None"
  unfolding diag_down_scores_def
  by (rule those_total) (auto simp: py_range_3 py_range_2 py_range_4 cell_wf[OF assms])

lemma diag_up_scores_total:
  assumes "wf_board b"
  shows "diag_up_scores b p \<noteq> None"
  unfolding diag_up_scores_def
  by (rule those_total) (auto simp: py_range2_3_6 py_range_2 py_range_4 cell_wf[OF assms])

lemma evaluate_board_total:
  assumes "wf_board b"
  shows "evaluate_board b p \<noteq> None"
proof -
  obtain ca where 1: "column_array b (COLS div 2) = Some ca"
    using column_array_total[OF assms, of "COLS div 2"] by auto
  obtain hs where 2: "horizontal_scores b p = Some hs" using horizontal_scores_total[OF assms] by blast
  obtain vs where 3: "vertical_scores b p = Some vs" using vertical_scores_total[OF assms] by blast
  obtain ds where 4: "diag_down_scores b p = Some ds" using diag_down_scores_total[OF assms] by blast
  obtain us where 5: "diag_up_scores b p = Some us" using diag_up_scores_total[OF assms] by blast
  show ?thesis unfolding evaluate_board_def using 1 2 3 4 5 by simp
qed

lemma leaf_result_total:
  assumes "wf_board b"
  shows "\<exists>s. leaf_result b = Some (s, None)"
proof -
  obtain a where a: "check_win b AI_PIECE = Some a" using check_win_total[OF assms] by blast
  obtain h where h: "check_win b HUMAN_PIECE = Some h" using check_win_total[OF assms] by blast
  obtain v where v: "evaluate_board b AI_PIECE = Some v" using evaluate_board_total[OF assms] by blast
  show ?thesis unfolding leaf_result_def using a h v by simp
qed

lemma bounds_value_alt:
  "a < b \<Longrightarrow> bounds_value a b v s \<longleftrightarrow> min v b \<le> s \<and> s \<le> max v a"
  unfolding bounds_value_def by (auto simp: min_def max_def)

lemma max_step_cut:
  fixes a b v c cv R :: "'a::linorder"
  assumes "v \<le> a" "a < b" "bounds_value a b cv c" "b \<le> max a (max v c)"
  shows "bounds_value a b (max v (max cv R)) (max v c)"
proof -
  have c: "b \<le> c" using assms(1,2,4) by (auto simp: max_def split: if_splits)
  then have vc: "max v c = c" using assms(1,2) by (auto simp: max_def)
  have "c \<le> cv" using assms(3) c unfolding bounds_value_def by blast
  then have "c \<le> max v (max cv R)" by (simp add: le_max_iff_disj)
  moreover have "a < c" using c assms(2) by simp
  ultimately show ?thesis unfolding vc bounds_value_def using c by auto
qed

lemma max_step_go:
  fixes a b v c cv R s :: "'a::linorder"
  assumes "v \<le> a" "a < b" "bounds_value a b cv c" "max a (max v c) < b"
    "bounds_value (max a (max v c)) b (max (max v c) R) s"
  shows "bounds_value a b (max v (max cv R)) s"
proof -
  have cb: "c < b" using assms(4) by simp
  have H1: "min cv b \<le> c" "c \<le> max cv a" using assms(3) bounds_value_alt[OF assms(2)] by auto
  have H2: "min (max (max v c) R) b \<le> s" "s \<le> max (max (max v c) R) (max a (max v c))"
    using assms(5) bounds_value_alt[OF assms(4)] by auto
  have cvc: "cv \<le> c" using H1(1) cb by (auto simp add: min_le_iff_disj)
  have up: "s \<le> max (max v (max cv R)) a"
  proof -
    have "max (max (max v c) R) (max a (max v c)) \<le> max (max v (max cv R)) a"
      using assms(1) H1(2) by (auto simp: le_max_iff_disj)
    with H2(2) show ?thesis by (rule order_trans)
  qed
  have lo: "min (max v (max cv R)) b \<le> s"
  proof -
    have "max v (max cv R) \<le> max (max v c) R" using cvc by (auto simp: le_max_iff_disj)
    then have "min (max v (max cv R)) b \<le> min (max (max v c) R) b"
      by (meson min.mono order_refl)
    with H2(1) show ?thesis by (rule order_trans[rotated])
  qed
  show ?thesis using lo up bounds_value_alt[OF assms(2)] by simp
qed

lemma min_step_cut:
  fixes a b v c cv R :: "'a::linorder"
  assumes "b \<le> v" "a < b" "bounds_value a b cv c" "min b (min v c) \<le> a"
  shows "bounds_value a b (min v (min cv R)) (min v c)"
proof -
  have c: "c \<le> a" using assms(1,2,4) by (auto simp: min_def split: if_splits)
  then have vc: "min v c = c" using assms(1,2) by (auto simp: min_def)
  have "cv \<le> c" using assms(3) c unfolding bounds_value_def by blast
  then have "min v (min cv R) \<le> c" by (simp add: min_le_iff_disj)
  moreover have "c < b" using c assms(2) by simp
  ultimately show ?thesis unfolding vc bounds_value_def using c by auto
qed

lemma min_step_go:
  fixes a b v c cv R s :: "'a::linorder"
  assumes "b \<le> v" "a < b" "bounds_value a b cv c" "a < min b (min v c)"
    "bounds_value a (min b (min v c)) (min (min v c) R) s"
  shows "bounds_value a b (min v (min cv R)) s"
proof -
  have ca: "a < c" using assms(4) by simp
  have H1: "min cv b \<le> c" "c \<le> max cv a" using assms(3) bounds_value_alt[OF assms(2)] by auto
  have H2: "min (min (min v c) R) (min b (min v c)) \<le> s" "s \<le> max (min (min v c) R) a"
    using assms(5) bounds_value_alt[OF assms(4)] by auto
  have cvc: "c \<le> cv" using H1(2) ca by (auto simp add: le_max_iff_disj)
  have lo: "min (min v (min cv R)) b \<le> s"
  proof -
    have "min (min v (min cv R)) b \<le> min (min (min v c) R) (min b (min v c))"
      using assms(1) H1(1) by (auto simp: min_le_iff_disj)
    then show ?thesis using H2(1) by (rule order_trans)
  qed
  have up: "s \<le> max (min v (min cv R)) a"
  proof -
    have "min (min v c) R \<le> min v (min cv R)" using cvc by (auto simp: min_le_iff_disj)
    then have "max (min (min v c) R) a \<le> max (min v (min cv R)) a"
      by (meson max.mono order_refl)
    with H2(2) show ?thesis by (rule order_trans)
  qed
  show ?thesis using lo up bounds_value_alt[OF assms(2)] by simp
qed

lemma bounds_value_exact: "bounds_value a b v v"
  by (simp add: bounds_value_def)

lemma NegInf_least [simp]: "NegInf \<le> (x::score)"
  by simp

lemma PosInf_greatest [simp]: "(x::score) \<le> PosInf"
  by (cases x) auto

lemma NegInf_less_PosInf: "NegInf < PosInf"
  by (simp add: less_score_def)

lemma if_greater_max: "(if (c::score) > v then c else v) = max v c"
  by (auto simp: max_def)

lemma if_less_min: "(if (c::score) < v then c else v) = min v c"
  by (auto simp: min_def)

lemma max_loop_total:
  assumes wf: "wf_board b"
    and rec: "\<forall>cb a bt mx st. wf_board cb \<longrightarrow> recurse cb a bt mx st \<noteq> None"
  shows "set ms \<subseteq> {c. - COLS \<le> c \<and> c < COLS} \<Longrightarrow>
     \<exists>s bm st'. max_loop recurse b ms v best a bt st = Some ((s, bm), st')
        \<and> (bm = best \<or> bm \<in> Some ` set ms)"
proof (induction ms arbitrary: v best a st)
  case Nil then show ?case by simp
next
  case (Cons m ms)
  then have m: "- COLS \<le> m" "m < COLS" and ms: "set ms \<subseteq> {c. - COLS \<le> c \<and> c < COLS}" by auto
  obtain cb where cb: "make_move b m AI_PIECE = Some cb" "wf_board cb"
    using make_move_wf[OF wf m] by blast
  obtain s0 m0 st1 where r: "recurse cb a bt False st = Some ((s0, m0), st1)"
    using rec[rule_format, OF cb(2), of a bt False st] by (cases "recurse cb a bt False st") auto
  let ?v1 = "if s0 > v then s0 else v"
  let ?b1 = "if s0 > v then Some m else best"
  show ?case
  proof (cases "bt \<le> max a ?v1")
    case True
    then have "max_loop recurse b (m # ms) v best a bt st = Some ((?v1, ?b1), st1)"
      using cb r by (simp add: Let_def)
    then show ?thesis by auto
  next
    case False
    then have e: "max_loop recurse b (m # ms) v best a bt st
        = max_loop recurse b ms ?v1 ?b1 (max a ?v1) bt st1"
      using cb r by (simp add: Let_def)
    from Cons.IH[OF ms, of ?v1 ?b1 "max a ?v1" st1] obtain s bm st' where
      "max_loop recurse b ms ?v1 ?b1 (max a ?v1) bt st1 = Some ((s, bm), st')"
      "bm = ?b1 \<or> bm \<in> Some ` set ms" by blast
    then show ?thesis unfolding e by (auto split: if_splits)
  qed
qed

lemma min_loop_total:
  assumes wf: "wf_board b"
    and rec: "\<forall>cb a bt mx st. wf_board cb \<longrightarrow> recurse cb a bt mx st \<noteq> None"
  shows "set ms \<subseteq> {c. - COLS \<le> c \<and> c < COLS} \<Longrightarrow>
     \<exists>s bm st'. min_loop recurse b ms v best a bt st = Some ((s, bm), st')
        \<and> (bm = best \<or> bm \<in> Some ` set ms)"
proof (induction ms arbitrary: v best bt st)
  case Nil then show ?case by simp
next
  case (Cons m ms)
  then have m: "- COLS \<le> m" "m < COLS" and ms: "set ms \<subseteq> {c. - COLS \<le> c \<and> c < COLS}" by auto
  obtain cb where cb: "make_move b m HUMAN_PIECE = Some cb" "wf_board cb"
    using make_move_wf[OF wf m] by blast
  obtain s0 m0 st1 where r: "recurse cb a bt True st = Some ((s0, m0), st1)"
    using rec[rule_format, OF cb(2), of a bt True st] by (cases "recurse cb a bt True st") auto
  let ?v1 = "if s0 < v then s0 else v"
  let ?b1 = "if s0 < v then Some m else best"
  show ?case
  proof (cases "min bt ?v1 \<le> a")
    case True
    then have "min_loop recurse b (m # ms) v best a bt st = Some ((?v1, ?b1), st1)"
      using cb r by (simp add: Let_def)
    then show ?thesis by auto
  next
    case False
    then have e: "min_loop recurse b (m # ms) v best a bt st
        = min_loop recurse b ms ?v1 ?b1 a (min bt ?v1) st1"
      using cb r by (simp add: Let_def)
    from Cons.IH[OF ms, of ?v1 ?b1 "min bt ?v1" st1] obtain s bm st' where
      "min_loop recurse b ms ?v1 ?b1 a (min bt ?v1) st1 = Some ((s, bm), st')"
      "bm = ?b1 \<or> bm \<in> Some ` set ms" by blast
    then show ?thesis unfolding e by (auto split: if_splits)
  qed
qed

lemma score_moves_wf:
  assumes wf: "wf_board b"
  shows "set ms \<subseteq> {c. - COLS \<le> c \<and> c < COLS} \<Longrightarrow>
     \<exists>xs. score_moves b ms mx = Some xs \<and> map snd xs = ms"
proof (induction ms)
  case Nil then show ?case by simp
next
  case (Cons m ms)
  then have m: "- COLS \<le> m" "m < COLS" and ms: "set ms \<subseteq> {c. - COLS \<le> c \<and> c < COLS}" by auto
  obtain tb where tb: "make_move b m (if mx then AI_PIECE else HUMAN_PIECE) = Some tb" "wf_board tb"
    using make_move_wf[OF wf m] by blast
  obtain sc where sc: "evaluate_board tb AI_PIECE = Some sc"
    using evaluate_board_total[OF tb(2)] by blast
  obtain xs where xs: "score_moves b ms mx = Some xs" "map snd xs = ms"
    using Cons.IH[OF ms] by blast
  show ?case using tb sc xs by simp
qed

lemma order_moves_wf:
  assumes wf: "wf_board b" and ms: "set ms \<subseteq> {c. - COLS \<le> c \<and> c < COLS}"
  shows "\<exists>ms'. order_moves b ms mx = Some ms' \<and> set ms' = set ms"
proof -
  obtain xs where xs: "score_moves b ms mx = Some xs" "map snd xs = ms"
    using score_moves_wf[OF wf ms] by blast
  have "set (map snd (sort_key f xs)) = set ms" for f :: "int \<times> int \<Rightarrow> int"
    using xs(2) by (metis set_map set_sort)
  then show ?thesis unfolding order_moves_def using xs(1) by simp
qed

lemma valid_moves_range:
  assumes "wf_board b" "get_valid_moves b = Some ms"
  shows "set ms \<subseteq> {c. - COLS \<le> c \<and> c < COLS}" "\<forall>c\<in>set ms. 0 \<le> c \<and> c < COLS \<and> is_valid_move b c = Some True"
  using get_valid_moves_wf[OF assms(1)] assms(2) by (auto simp: py_range_def)

lemma nonterminal_has_move:
  assumes wf: "wf_board b" and nt: "is_terminal_node b = Some False"
  shows "\<exists>ms. get_valid_moves b = Some ms \<and> ms \<noteq> []"
proof -
  obtain h where h: "check_win b HUMAN_PIECE = Some h" using check_win_total[OF wf] by blast
  obtain a where a: "check_win b AI_PIECE = Some a" using check_win_total[OF wf] by blast
  have t: "check_tie b = Some False"
    using nt h a unfolding is_terminal_node_def by (cases h; cases a) auto
  have "check_tie b = Some (\<forall>c\<in>set (py_range COLS). is_valid_move b c = Some False)"
    unfolding check_tie_def by (rule all_top_occupied_wf[OF wf]) (simp add: py_range_5)
  with t obtain c where c: "c \<in> set (py_range COLS)" "is_valid_move b c \<noteq> Some False" by auto
  then have "- COLS \<le> c" "c < COLS" by (auto simp: py_range_def)
  then have "is_valid_move b c = Some True"
    using is_valid_move_wf[OF wf, of c] c(2) by auto
  then have "filter (\<lambda>c. is_valid_move b c = Some True) (py_range COLS) \<noteq> []"
    using c(1) by (auto simp: filter_empty_conv)
  then show ?thesis using get_valid_moves_wf[OF wf] by simp
qed

lemma py_choice_mem: "xs \<noteq> [] \<Longrightarrow> \<exists>x. py_choice k xs = Some x \<and> x \<in> set xs"
  by (simp add: py_choice_def)

lemma nodes_visited_enter [simp]: "nodes_visited (enter_node st d) = nodes_visited st + 1"
  by (simp add: enter_node_def)

text \<open>The moves the loops run over, at a node that is searched.\<close>

lemma search_moves:
  assumes wf: "wf_board b" and nt: "is_terminal_node b = Some False"
  shows "\<exists>vm ms bm. get_valid_moves b = Some vm
      \<and> (if version = 2 then order_moves b vm mx else Some vm) = Some ms
      \<and> py_choice k ms = Some bm \<and> bm \<in> set ms \<and> set ms = set vm \<and> vm \<noteq> []"
proof -
  obtain vm where vm: "get_valid_moves b = Some vm" "vm \<noteq> []"
    using nonterminal_has_move[OF wf nt] by blast
  have rg: "set vm \<subseteq> {c. - COLS \<le> c \<and> c < COLS}" by (rule valid_moves_range(1)[OF wf vm(1)])
  obtain ms where ms: "(if version = 2 then order_moves b vm mx else Some vm) = Some ms" "set ms = set vm"
    using order_moves_wf[OF wf rg, of mx] by (cases "version = 2") auto
  then have "ms \<noteq> []" using vm(2) by auto
  then obtain bm where "py_choice k ms = Some bm" "bm \<in> set ms" using py_choice_mem by blast
  with vm ms show ?thesis by blast
qed

lemma minimax_Suc_search:
  assumes "\<not> deadline_passed e (nodes_visited st + 1)" "is_terminal_node b = Some False"
    "get_valid_moves b = Some vm"
    "(if version = 2 then order_moves b vm mx else Some vm) = Some ms"
    "py_choice (random_index e (nodes_visited st + 1)) ms = Some bm"
  shows "minimax e version (Suc d) b a bt mx st =
     (if mx then max_loop (minimax e version d) b ms NegInf (Some bm) a bt (enter_node st (Suc d))
      else min_loop (minimax e version d) b ms PosInf (Some bm) a bt (enter_node st (Suc d)))"
  using assms by (simp add: Let_def)

lemma minimax_total:
  "wf_board b \<Longrightarrow> minimax e version d b a bt mx st \<noteq> None"
proof (induction d arbitrary: b a bt mx st)
  case 0
  obtain s where s: "leaf_result b = Some (s, None)" using leaf_result_total[OF 0] by blast
  obtain v where v: "evaluate_board b AI_PIECE = Some v" using evaluate_board_total[OF 0] by blast
  show ?case using s v by (simp add: Let_def)
next
  case (Suc d)
  note wf = Suc.prems
  obtain s where s: "leaf_result b = Some (s, None)" using leaf_result_total[OF wf] by blast
  obtain v where v: "evaluate_board b AI_PIECE = Some v" using evaluate_board_total[OF wf] by blast
  obtain t where t: "is_terminal_node b = Some t" using is_terminal_node_total[OF wf] by blast
  show ?case
  proof (cases "deadline_passed e (nodes_visited st + 1) \<or> t")
    case True
    then show ?thesis using s v t by (auto simp: Let_def)
  next
    case False
    then have nd: "\<not> deadline_passed e (nodes_visited st + 1)" and nt: "is_terminal_node b = Some False"
      using t by auto
    from search_moves[OF wf nt, of version mx "random_index e (nodes_visited st + 1)"]
    obtain vm ms bm where m: "get_valid_moves b = Some vm"
      "(if version = 2 then order_moves b vm mx else Some vm) = Some ms"
      "py_choice (random_index e (nodes_visited st + 1)) ms = Some bm" "set ms = set vm"
      by blast
    have rg: "set ms \<subseteq> {c. - COLS \<le> c \<and> c < COLS}"
      using valid_moves_range(1)[OF wf m(1)] m(4) by simp
    have rec: "\<forall>cb a bt mx st. wf_board cb \<longrightarrow> minimax e version d cb a bt mx st \<noteq> None"
      using Suc.IH by blast
    show ?thesis
      unfolding minimax_Suc_search[OF nd nt m(1,2,3)]
      using max_loop_total[where recurse="minimax e version d" and v=NegInf and best="Some bm" and a=a and bt=bt and st="enter_node st (Suc d)", OF wf rec rg]
        min_loop_total[where recurse="minimax e version d" and v=PosInf and best="Some bm" and a=a and bt=bt and st="enter_node st (Suc d)", OF wf rec rg]
      by (cases mx) auto
  qed
qed

lemma minimax_move_cases:
  assumes wf: "wf_board b"
  shows "\<exists>s m st'. minimax e version d b a bt mx st = Some ((s, m), st')
     \<and> (m = None \<longleftrightarrow> deadline_passed e (nodes_visited st + 1) \<or> d = 0 \<or> is_terminal_node b = Some True)
     \<and> (\<forall>c. m = Some c \<longrightarrow> 0 \<le> c \<and> c < COLS \<and> is_valid_move b c = Some True)"
proof -
  obtain s where s: "leaf_result b = Some (s, None)" using leaf_result_total[OF wf] by blast
  obtain v where v: "evaluate_board b AI_PIECE = Some v" using evaluate_board_total[OF wf] by blast
  obtain t where t: "is_terminal_node b = Some t" using is_terminal_node_total[OF wf] by blast
  show ?thesis
  proof (cases d)
    case 0
    then show ?thesis using s v by (simp add: Let_def)
  next
    case (Suc d')
    show ?thesis
    proof (cases "deadline_passed e (nodes_visited st + 1) \<or> t")
      case True
      then show ?thesis using s v t Suc by (auto simp: Let_def)
    next
      case False
      then have nd: "\<not> deadline_passed e (nodes_visited st + 1)" and nt: "is_terminal_node b = Some False"
        using t by auto
      from search_moves[OF wf nt, of version mx "random_index e (nodes_visited st + 1)"]
      obtain vm ms bm where m: "get_valid_moves b = Some vm"
        "(if version = 2 then order_moves b vm mx else Some vm) = Some ms"
        "py_choice (random_index e (nodes_visited st + 1)) ms = Some bm" "set ms = set vm" "bm \<in> set ms"
        by blast
      have rg: "set ms \<subseteq> {c. - COLS \<le> c \<and> c < COLS}"
        using valid_moves_range(1)[OF wf m(1)] m(4) by simp
      have ok: "\<forall>c\<in>set ms. 0 \<le> c \<and> c < COLS \<and> is_valid_move b c = Some True"
        using valid_moves_range(2)[OF wf m(1)] m(4) by simp
      have rec: "\<forall>cb a bt mx st. wf_board cb \<longrightarrow> minimax e version d' cb a bt mx st \<noteq> None"
        using minimax_total by blast
      obtain s' bm' st' where r: "minimax e version (Suc d') b a bt mx st = Some ((s', bm'), st')"
        "bm' = Some bm \<or> bm' \<in> Some ` set ms"
        unfolding minimax_Suc_search[OF nd nt m(1,2,3)]
        using max_loop_total[where recurse="minimax e version d'" and v=NegInf and best="Some bm" and a=a and bt=bt and st="enter_node st (Suc d')", OF wf rec rg]
          min_loop_total[where recurse="minimax e version d'" and v=PosInf and best="Some bm" and a=a and bt=bt and st="enter_node st (Suc d')", OF wf rec rg]
        by (cases mx) auto
      then obtain c where c: "bm' = Some c" "c \<in> set ms" using m(5) by auto
      show ?thesis using r(1) c ok nd nt Suc by auto
    qed
  qed
qed

lemma maxs_Max: "maxs xs = Max (insert NegInf (set xs))"
proof (induction xs)
  case Nil then show ?case by simp
next
  case (Cons x xs)
  have "Max (insert NegInf (set (x # xs))) = Max (insert x (insert NegInf (set xs)))"
    by (simp add: insert_commute)
  also have "\<dots> = max x (Max (insert NegInf (set xs)))"
    by (rule Max_insert) auto
  finally show ?case using Cons by simp
qed

lemma mins_Min: "mins xs = Min (insert PosInf (set xs))"
proof (induction xs)
  case Nil then show ?case by simp
next
  case (Cons x xs)
  have "Min (insert PosInf (set (x # xs))) = Min (insert x (insert PosInf (set xs)))"
    by (simp add: insert_commute)
  also have "\<dots> = min x (Min (insert PosInf (set xs)))"
    by (rule Min_insert) auto
  finally show ?case using Cons by simp
qed

lemma max_NegInf [simp]: "max v NegInf = v" "max NegInf v = v"
  by (simp_all add: max.absorb1 max.absorb2)

lemma min_PosInf [simp]: "min v PosInf = v" "min PosInf v = v"
  by (simp_all add: min.absorb1 min.absorb2)

lemma maxs_map_set: "set ms = set ms' \<Longrightarrow> maxs (map f ms) = maxs (map f ms')"
  by (simp add: maxs_Max)

lemma mins_map_set: "set ms = set ms' \<Longrightarrow> mins (map f ms) = mins (map f ms')"
  by (simp add: mins_Min)

lemma max_loop_bounds:
  assumes wf: "wf_board b"
    and rec: "\<forall>cb a st. wf_board cb \<longrightarrow> a < bt \<longrightarrow>
        (\<exists>s m st'. recurse cb a bt False st = Some ((s, m), st') \<and> bounds_value a bt (gv cb) s)"
  shows "set ms \<subseteq> {c. - COLS \<le> c \<and> c < COLS} \<Longrightarrow> v \<le> a \<Longrightarrow> a < bt \<Longrightarrow>
     \<exists>s bm st'. max_loop recurse b ms v best a bt st = Some ((s, bm), st')
        \<and> bounds_value a bt (max v (maxs (map (\<lambda>m. gv (the (make_move b m AI_PIECE))) ms))) s"
proof (induction ms arbitrary: v best a st)
  case Nil
  then show ?case by (simp add: bounds_value_exact)
next
  case (Cons m ms)
  then have m: "- COLS \<le> m" "m < COLS" and ms: "set ms \<subseteq> {c. - COLS \<le> c \<and> c < COLS}" by auto
  note va = \<open>v \<le> a\<close> and ab = \<open>a < bt\<close>
  obtain cb where cb: "make_move b m AI_PIECE = Some cb" "wf_board cb"
    using make_move_wf[OF wf m] by blast
  obtain s0 m0 st1 where r: "recurse cb a bt False st = Some ((s0, m0), st1)"
    and b0: "bounds_value a bt (gv cb) s0"
    using rec[rule_format, OF cb(2) ab, of st] by blast
  let ?R = "maxs (map (\<lambda>m. gv (the (make_move b m AI_PIECE))) ms)"
  have tot: "max v (maxs (map (\<lambda>m. gv (the (make_move b m AI_PIECE))) (m # ms))) = max v (max (gv cb) ?R)"
    using cb(1) by simp
  let ?b1 = "if s0 > v then Some m else best"
  show ?case
  proof (cases "bt \<le> max a (max v s0)")
    case True
    then have "max_loop recurse b (m # ms) v best a bt st = Some ((max v s0, ?b1), st1)"
      using cb r by (simp add: Let_def if_greater_max)
    moreover have "bounds_value a bt (max v (max (gv cb) ?R)) (max v s0)"
      by (rule max_step_cut[OF va ab b0 True])
    ultimately show ?thesis unfolding tot by blast
  next
    case False
    then have lt: "max a (max v s0) < bt" using not_le by blast
    have e: "max_loop recurse b (m # ms) v best a bt st
        = max_loop recurse b ms (max v s0) ?b1 (max a (max v s0)) bt st1"
      using cb r False by (simp add: Let_def if_greater_max)
    have "max v s0 \<le> max a (max v s0)" by (rule max.cobounded2)
    from Cons.IH[OF ms this lt, of ?b1 st1] obtain s bm st' where
      l: "max_loop recurse b ms (max v s0) ?b1 (max a (max v s0)) bt st1 = Some ((s, bm), st')"
      and bs: "bounds_value (max a (max v s0)) bt (max (max v s0) ?R) s" by blast
    have "bounds_value a bt (max v (max (gv cb) ?R)) s"
      by (rule max_step_go[OF va ab b0 lt bs])
    then show ?thesis unfolding tot e using l by blast
  qed
qed

lemma min_loop_bounds:
  assumes wf: "wf_board b"
    and rec: "\<forall>cb bt st. wf_board cb \<longrightarrow> a < bt \<longrightarrow>
        (\<exists>s m st'. recurse cb a bt True st = Some ((s, m), st') \<and> bounds_value a bt (gv cb) s)"
  shows "set ms \<subseteq> {c. - COLS \<le> c \<and> c < COLS} \<Longrightarrow> bt \<le> v \<Longrightarrow> a < bt \<Longrightarrow>
     \<exists>s bm st'. min_loop recurse b ms v best a bt st = Some ((s, bm), st')
        \<and> bounds_value a bt (min v (mins (map (\<lambda>m. gv (the (make_move b m HUMAN_PIECE))) ms))) s"
proof (induction ms arbitrary: v best bt st)
  case Nil
  then show ?case by (simp add: bounds_value_exact)
next
  case (Cons m ms)
  then have m: "- COLS \<le> m" "m < COLS" and ms: "set ms \<subseteq> {c. - COLS \<le> c \<and> c < COLS}" by auto
  note bv = \<open>bt \<le> v\<close> and ab = \<open>a < bt\<close>
  obtain cb where cb: "make_move b m HUMAN_PIECE = Some cb" "wf_board cb"
    using make_move_wf[OF wf m] by blast
  obtain s0 m0 st1 where r: "recurse cb a bt True st = Some ((s0, m0), st1)"
    and b0: "bounds_value a bt (gv cb) s0"
    using rec[rule_format, OF cb(2) ab, of st] by blast
  let ?R = "mins (map (\<lambda>m. gv (the (make_move b m HUMAN_PIECE))) ms)"
  have tot: "min v (mins (map (\<lambda>m. gv (the (make_move b m HUMAN_PIECE))) (m # ms))) = min v (min (gv cb) ?R)"
    using cb(1) by simp
  let ?b1 = "if s0 < v then Some m else best"
  show ?case
  proof (cases "min bt (min v s0) \<le> a")
    case True
    then have "min_loop recurse b (m # ms) v best a bt st = Some ((min v s0, ?b1), st1)"
      using cb r by (simp add: Let_def if_less_min)
    moreover have "bounds_value a bt (min v (min (gv cb) ?R)) (min v s0)"
      by (rule min_step_cut[OF bv ab b0 True])
    ultimately show ?thesis unfolding tot by blast
  next
    case False
    then have lt: "a < min bt (min v s0)" using not_le by blast
    have e: "min_loop recurse b (m # ms) v best a bt st
        = min_loop recurse b ms (min v s0) ?b1 a (min bt (min v s0)) st1"
      using cb r False by (simp add: Let_def if_less_min)
    have "min bt (min v s0) \<le> min v s0" by (rule min.cobounded2)
    from Cons.IH[OF ms this lt, of ?b1 st1] obtain s bm st' where
      l: "min_loop recurse b ms (min v s0) ?b1 a (min bt (min v s0)) st1 = Some ((s, bm), st')"
      and bs: "bounds_value a (min bt (min v s0)) (min (min v s0) ?R) s" by blast
    have "bounds_value a bt (min v (min (gv cb) ?R)) s"
      by (rule min_step_go[OF bv ab b0 lt bs])
    then show ?thesis unfolding tot e using l by blast
  qed
qed

lemma minimax_bounds:
  assumes nl: "never_late e"
  shows "wf_board b \<Longrightarrow> a < bt \<Longrightarrow>
     \<exists>s m st'. minimax e version d b a bt mx st = Some ((s, m), st')
        \<and> bounds_value a bt (game_value d b mx) s"
proof (induction d arbitrary: b a bt mx st)
  case 0
  obtain s where s: "leaf_result b = Some (s, None)" using leaf_result_total[OF 0(1)] by blast
  have nd: "\<not> deadline_passed e (nodes_visited st + 1)" using nl by (simp add: never_late_def)
  show ?case using s nd by (simp add: Let_def static_value_def bounds_value_exact)
next
  case (Suc d)
  note wf = Suc.prems(1) and ab = Suc.prems(2)
  obtain s where s: "leaf_result b = Some (s, None)" using leaf_result_total[OF wf] by blast
  obtain t where t: "is_terminal_node b = Some t" using is_terminal_node_total[OF wf] by blast
  have nd: "\<not> deadline_passed e (nodes_visited st + 1)" using nl by (simp add: never_late_def)
  show ?case
  proof (cases t)
    case True
    then show ?thesis using s t nd by (simp add: Let_def static_value_def bounds_value_exact)
  next
    case False
    then have nt: "is_terminal_node b = Some False" using t by simp
    from search_moves[OF wf nt, of version mx "random_index e (nodes_visited st + 1)"]
    obtain vm ms bm where m: "get_valid_moves b = Some vm"
      "(if version = 2 then order_moves b vm mx else Some vm) = Some ms"
      "py_choice (random_index e (nodes_visited st + 1)) ms = Some bm" "set ms = set vm"
      by blast
    have rg: "set ms \<subseteq> {c. - COLS \<le> c \<and> c < COLS}"
      using valid_moves_range(1)[OF wf m(1)] m(4) by simp
    show ?thesis
    proof (cases mx)
      case True
      let ?gv = "\<lambda>cb. game_value d cb False"
      have rec: "\<forall>cb a st. wf_board cb \<longrightarrow> a < bt \<longrightarrow>
        (\<exists>s m st'. minimax e version d cb a bt False st = Some ((s, m), st') \<and> bounds_value a bt (?gv cb) s)"
        using Suc.IH by blast
      have gv: "game_value (Suc d) b mx = maxs (map (\<lambda>m. ?gv (the (make_move b m AI_PIECE))) ms)"
        using nt m(1) True maxs_map_set[OF m(4)] by simp
      from max_loop_bounds[where recurse="minimax e version d" and gv="?gv" and v=NegInf
          and best="Some bm" and st="enter_node st (Suc d)", OF wf rec rg _ ab]
      obtain s' bm' st' where
        "max_loop (minimax e version d) b ms NegInf (Some bm) a bt (enter_node st (Suc d)) = Some ((s', bm'), st')"
        "bounds_value a bt (max NegInf (maxs (map (\<lambda>m. ?gv (the (make_move b m AI_PIECE))) ms))) s'"
        by auto
      then show ?thesis
        unfolding minimax_Suc_search[OF nd nt m(1,2,3)] gv using True by simp
    next
      case False
      let ?gv = "\<lambda>cb. game_value d cb True"
      have rec: "\<forall>cb bt st. wf_board cb \<longrightarrow> a < bt \<longrightarrow>
        (\<exists>s m st'. minimax e version d cb a bt True st = Some ((s, m), st') \<and> bounds_value a bt (?gv cb) s)"
        using Suc.IH by blast
      have gv: "game_value (Suc d) b mx = mins (map (\<lambda>m. ?gv (the (make_move b m HUMAN_PIECE))) ms)"
        using nt m(1) False mins_map_set[OF m(4)] by simp
      from min_loop_bounds[where recurse="minimax e version d" and gv="?gv" and v=PosInf
          and best="Some bm" and st="enter_node st (Suc d)", OF wf rec rg _ ab]
      obtain s' bm' st' where
        "min_loop (minimax e version d) b ms PosInf (Some bm) a bt (enter_node st (Suc d)) = Some ((s', bm'), st')"
        "bounds_value a bt (min PosInf (mins (map (\<lambda>m. ?gv (the (make_move b m HUMAN_PIECE))) ms))) s'"
        by auto
      then show ?thesis
        unfolding minimax_Suc_search[OF nd nt m(1,2,3)] gv using False by simp
    qed
  qed
qed

lemma bounds_value_full_window:
  assumes "bounds_value NegInf PosInf v s"
  shows "s = v"
proof (cases s)
  case NegInf
  then have "v \<le> NegInf" using assms by (simp add: bounds_value_def)
  then show ?thesis using NegInf by (cases v) auto
next
  case PosInf
  then have "PosInf \<le> v" using assms by (simp add: bounds_value_def)
  then show ?thesis using PosInf by (cases v) auto
next
  case (Fin x)
  then have "NegInf < s" "s < PosInf" by (auto simp: less_score_def)
  then show ?thesis using assms by (simp add: bounds_value_def)
qed

lemma minimax_full_window:
  assumes "never_late e" "wf_board b"
  shows "\<exists>m st'. minimax e version d b NegInf PosInf mx st = Some ((game_value d b mx, m), st')"
  using minimax_bounds[OF assms NegInf_less_PosInf, of version d mx st]
    bounds_value_full_window by blast

text \<open>
  Claim C1. On every 6 x 5 board, at every depth, for either side to move, with the full
  window \<open>(-inf, +inf)\<close> the driver passes and a deadline that never passes, version 1
  (no move ordering) and version 2 (move ordering) of \<open>minimax\<close> both return, with the same
  score; the chosen columns may differ.
\<close>

theorem minimax_versions_same_score:
  assumes "wf_board b" "never_late e1" "never_late e2"
  shows "\<exists>s m1 m2 st1' st2'.
           minimax e1 1 d b NegInf PosInf mx st1 = Some ((s, m1), st1')
         \<and> minimax e2 2 d b NegInf PosInf mx st2 = Some ((s, m2), st2')"
  using minimax_full_window[OF assms(2,1), of 1 d mx st1]
    minimax_full_window[OF assms(3,1), of 2 d mx st2] by blast

lemma never_late_never_late_env: "never_late never_late_env"
  by (simp add: never_late_def never_late_env_def)

lemma minimax_create_board_v1_depth1:
  "minimax never_late_env 1 1 create_board NegInf PosInf True fresh_stats
   = Some ((Fin 3, Some 2), \<lparr>nodes_visited = 6, max_depth_reached = 1\<rparr>)"
  by code_simp

theorem minimax_versions_same_score_witness:
  "wf_board create_board \<and> never_late never_late_env
   \<and> minimax never_late_env 1 1 create_board NegInf PosInf True fresh_stats
       = Some ((Fin 3, Some 2), \<lparr>nodes_visited = 6, max_depth_reached = 1\<rparr>)
   \<and> fst (fst (the (minimax never_late_env 2 1 create_board NegInf PosInf True fresh_stats))) = Fin 3"
proof -
  have w: "wf_board create_board" by (rule wf_create_board)
  have n: "never_late never_late_env" by (rule never_late_never_late_env)
  from minimax_versions_same_score[OF w n n, of 1 True fresh_stats fresh_stats]
  obtain s m1 m2 st1' st2' where
    1: "minimax never_late_env 1 1 create_board NegInf PosInf True fresh_stats = Some ((s, m1), st1')"
    and 2: "minimax never_late_env 2 1 create_board NegInf PosInf True fresh_stats = Some ((s, m2), st2')"
    by blast
  from 1 have "s = Fin 3" unfolding minimax_create_board_v1_depth1 by simp
  with 2 w n minimax_create_board_v1_depth1 show ?thesis by simp
qed


subsection \<open>The moves returned\<close>

lemma deepening_loop_returns:
  assumes wf: "wf_board b"
  shows "loop_deadline_passed e (depth + k) \<Longrightarrow>
     \<exists>best st'. deepening_loop e version b depth bm st = Some (Some (best, st'))"
proof (induction k arbitrary: depth bm st)
  case 0
  then show ?case by (subst deepening_loop.simps) simp
next
  case (Suc k)
  show ?case
  proof (cases "loop_deadline_passed e depth")
    case True
    then show ?thesis by (subst deepening_loop.simps) simp
  next
    case False
    obtain s m st1 where r: "minimax e version depth b NegInf PosInf True st = Some ((s, m), st1)"
      using minimax_total[OF wf, of e version depth NegInf PosInf True st] by auto
    have "loop_deadline_passed e (Suc depth + k)" using Suc.prems by simp
    from Suc.IH[OF this, of "if finished_in_time e depth then m else bm" st1]
    show ?thesis using False r by (subst deepening_loop.simps) simp
  qed
qed

lemma minimax_playable:
  assumes "wf_board b" "minimax e version d b a bt mx st = Some ((s, m), st')"
  shows "playable b m"
  using minimax_move_cases[OF assms(1), of e version d a bt mx st] assms(2)
  by (auto simp: playable_def)

lemma deepening_loop_playable_aux:
  assumes "deepening_loop e version b depth bm st = Some r"
  shows "wf_board b \<longrightarrow> playable b bm \<longrightarrow> (\<exists>best st'. r = Some (best, st') \<and> playable b best)"
proof (rule deepening_loop.raw_induct[OF _ assms])
  fix loop :: "env \<Rightarrow> int \<Rightarrow> board \<Rightarrow> nat \<Rightarrow> int option \<Rightarrow> stats \<Rightarrow> (int option \<times> stats) option option"
  fix e version b depth bm st r
  assume IH: "\<And>e version b depth bm st r. loop e version b depth bm st = Some r \<Longrightarrow>
      wf_board b \<longrightarrow> playable b bm \<longrightarrow> (\<exists>best st'. r = Some (best, st') \<and> playable b best)"
  assume body: "(if loop_deadline_passed e depth then Some (Some (bm, st))
      else case minimax e version depth b NegInf PosInf True st of
             None \<Rightarrow> Some None
           | Some ((score, move), st1) \<Rightarrow>
               loop e version b (depth + 1) (if finished_in_time e depth then move else bm) st1) = Some r"
  show "wf_board b \<longrightarrow> playable b bm \<longrightarrow> (\<exists>best st'. r = Some (best, st') \<and> playable b best)"
  proof (intro impI)
    assume wf: "wf_board b" and pb: "playable b bm"
    show "\<exists>best st'. r = Some (best, st') \<and> playable b best"
    proof (cases "loop_deadline_passed e depth")
      case True
      then have "r = Some (bm, st)" using body by simp
      then show ?thesis using pb by simp
    next
      case False
      obtain s m st1 where r: "minimax e version depth b NegInf PosInf True st = Some ((s, m), st1)"
        using minimax_total[OF wf, of e version depth NegInf PosInf True st] by auto
      have pm: "playable b m" by (rule minimax_playable[OF wf r])
      have "loop e version b (depth + 1) (if finished_in_time e depth then m else bm) st1 = Some r"
        using body False r by simp
      from IH[OF this] wf pm pb show ?thesis by simp
    qed
  qed
qed

lemma deepening_loop_result:
  assumes wf: "wf_board b" and stop: "loop_deadline_passed e K"
  shows "depth + n = K \<Longrightarrow> (\<forall>j. depth \<le> j \<and> j < K \<longrightarrow> \<not> loop_deadline_passed e j) \<Longrightarrow>
     \<exists>best st'. deepening_loop e version b depth bm st = Some (Some (best, st'))
        \<and> st' = loop_stats e version b depth st n
        \<and> ((\<forall>j. depth \<le> j \<and> j < K \<longrightarrow> \<not> finished_in_time e j) \<longrightarrow> best = bm)
        \<and> (\<forall>j. depth \<le> j \<and> j < K \<and> finished_in_time e j
                \<and> (\<forall>i. j < i \<and> i < K \<longrightarrow> \<not> finished_in_time e i) \<longrightarrow>
              (\<exists>s st1. minimax e version j b NegInf PosInf True
                          (loop_stats e version b depth st (j - depth)) = Some ((s, best), st1)))"
proof (induction n arbitrary: depth bm st)
  case 0
  then have dk: "depth = K" by simp
  have "deepening_loop e version b depth bm st = Some (Some (bm, st))"
    using stop dk by (subst deepening_loop.simps) simp
  then show ?case using dk by auto
next
  case (Suc n)
  have lt: "depth < K" using Suc.prems(1) by simp
  have nd: "\<not> loop_deadline_passed e depth" using Suc.prems(2) lt by simp
  obtain s m st1 where r: "minimax e version depth b NegInf PosInf True st = Some ((s, m), st1)"
    using minimax_total[OF wf, of e version depth NegInf PosInf True st] by auto
  define bm' where "bm' = (if finished_in_time e depth then m else bm)"
  have k1: "Suc depth + n = K" using Suc.prems(1) by simp
  have k2: "\<forall>j. Suc depth \<le> j \<and> j < K \<longrightarrow> \<not> loop_deadline_passed e j"
    using Suc.prems(2) by simp
  from Suc.IH[OF k1 k2, of bm' st1] obtain best st' where
    run: "deepening_loop e version b (Suc depth) bm' st1 = Some (Some (best, st'))"
    and st: "st' = loop_stats e version b (Suc depth) st1 n"
    and none: "(\<forall>j. Suc depth \<le> j \<and> j < K \<longrightarrow> \<not> finished_in_time e j) \<longrightarrow> best = bm'"
    and last: "\<forall>j. Suc depth \<le> j \<and> j < K \<and> finished_in_time e j
                \<and> (\<forall>i. j < i \<and> i < K \<longrightarrow> \<not> finished_in_time e i) \<longrightarrow>
              (\<exists>s st1'. minimax e version j b NegInf PosInf True
                          (loop_stats e version b (Suc depth) st1 (j - Suc depth)) = Some ((s, best), st1'))"
    by blast
  have 1: "deepening_loop e version b depth bm st = Some (Some (best, st'))"
    using nd r run unfolding bm'_def by (subst deepening_loop.simps) simp
  have 2: "st' = loop_stats e version b depth st (Suc n)" using st r by simp
  have 3: "(\<forall>j. depth \<le> j \<and> j < K \<longrightarrow> \<not> finished_in_time e j) \<longrightarrow> best = bm"
  proof
    assume a: "\<forall>j. depth \<le> j \<and> j < K \<longrightarrow> \<not> finished_in_time e j"
    then have "\<not> finished_in_time e depth" using lt by simp
    then have "bm' = bm" by (simp add: bm'_def)
    moreover have "best = bm'" using none a by simp
    ultimately show "best = bm" by simp
  qed
  have 4: "\<exists>s st1'. minimax e version j b NegInf PosInf True
                          (loop_stats e version b depth st (j - depth)) = Some ((s, best), st1')"
    if j: "depth \<le> j" "j < K" "finished_in_time e j"
       "\<forall>i. j < i \<and> i < K \<longrightarrow> \<not> finished_in_time e i" for j
  proof (cases "j = depth")
    case True
    have "\<forall>i. Suc depth \<le> i \<and> i < K \<longrightarrow> \<not> finished_in_time e i" using j(4) True by simp
    then have "best = bm'" using none by simp
    then have "best = m" using j(3) True by (simp add: bm'_def)
    then show ?thesis using r True by simp
  next
    case False
    then have sj: "Suc depth \<le> j" using j(1) by simp
    then obtain q where q: "j - depth = Suc q" "j - Suc depth = q" by (cases "j - depth") auto
    from last sj j obtain s' st1' where
      "minimax e version j b NegInf PosInf True
         (loop_stats e version b (Suc depth) st1 (j - Suc depth)) = Some ((s', best), st1')"
      by blast
    then show ?thesis using r q by simp
  qed
  show ?case using 1 2 3 4 by blast
qed

lemma last_in_time_exists:
  "\<exists>j. a \<le> j \<and> j < (K::nat) \<and> P j \<Longrightarrow>
   \<exists>j. a \<le> j \<and> j < K \<and> P j \<and> (\<forall>i. j < i \<and> i < K \<longrightarrow> \<not> P i)"
proof (induction K)
  case 0
  then show ?case by simp
next
  case (Suc K)
  show ?case
  proof (cases "a \<le> K \<and> P K")
    case True
    then have "a \<le> K \<and> K < Suc K \<and> P K \<and> (\<forall>i. K < i \<and> i < Suc K \<longrightarrow> \<not> P i)" by auto
    then show ?thesis by blast
  next
    case False
    from Suc.prems obtain j where j: "a \<le> j" "j < Suc K" "P j" by blast
    then have "j \<noteq> K" using False by blast
    then have "j < K" using j(2) by simp
    then have "\<exists>j. a \<le> j \<and> j < K \<and> P j" using j by blast
    from Suc.IH[OF this] obtain j' where
      j': "a \<le> j'" "j' < K" "P j'" "\<forall>i. j' < i \<and> i < K \<longrightarrow> \<not> P i" by blast
    have "\<forall>i. j' < i \<and> i < Suc K \<longrightarrow> \<not> P i"
    proof (intro allI impI)
      fix i assume i: "j' < i \<and> i < Suc K"
      show "\<not> P i"
      proof (cases "i = K")
        case True
        then show ?thesis using False j'(1) j'(2) i by simp
      next
        case False
        then show ?thesis using i j'(4) by simp
      qed
    qed
    then show ?thesis using j' by (metis less_Suc_eq)
  qed
qed

lemma get_ai_move_result:
  assumes wf: "wf_board b" and fs: "first_stop e K"
  shows "\<exists>best st'. get_ai_move e version b = Some (Some (best, st'))
     \<and> st' = loop_stats e version b 1 \<lparr>nodes_visited = 0, max_depth_reached = 0\<rparr> (K - 1)
     \<and> playable b best
     \<and> (\<forall>j. last_in_time e K j \<longrightarrow>
           (\<exists>s st1. minimax e version j b NegInf PosInf True
              (loop_stats e version b 1 \<lparr>nodes_visited = 0, max_depth_reached = 0\<rparr> (j - 1))
              = Some ((s, best), st1)))
     \<and> (best = None \<longleftrightarrow> is_terminal_node b = Some True \<or> no_search_in_time e K
           \<or> (\<exists>j. last_in_time e K j \<and> deadline_passed e (nodes_visited
                 (loop_stats e version b 1 \<lparr>nodes_visited = 0, max_depth_reached = 0\<rparr> (j - 1)) + 1)))"
proof -
  let ?z = "\<lparr>nodes_visited = 0, max_depth_reached = 0\<rparr>"
  let ?S = "\<lambda>j. loop_stats e version b 1 ?z (j - 1)"
  have K1: "1 \<le> K" and stop: "loop_deadline_passed e K"
    and before: "\<forall>j. 1 \<le> j \<and> j < K \<longrightarrow> \<not> loop_deadline_passed e j"
    using fs by (auto simp: first_stop_def)
  have kn: "1 + (K - 1) = K" using K1 by simp
  from deepening_loop_result[OF wf stop kn before, of version None ?z]
  obtain best st' where
    run: "deepening_loop e version b 1 None ?z = Some (Some (best, st'))"
    and st: "st' = ?S K"
    and none: "(\<forall>j. 1 \<le> j \<and> j < K \<longrightarrow> \<not> finished_in_time e j) \<longrightarrow> best = None"
    and last: "\<forall>j. 1 \<le> j \<and> j < K \<and> finished_in_time e j
                \<and> (\<forall>i. j < i \<and> i < K \<longrightarrow> \<not> finished_in_time e i) \<longrightarrow>
              (\<exists>s st1. minimax e version j b NegInf PosInf True (?S j) = Some ((s, best), st1))"
    by blast
  have g: "get_ai_move e version b = Some (Some (best, st'))"
    using run by (simp only: get_ai_move_def)
  have lit: "last_in_time e K j \<longleftrightarrow> 1 \<le> j \<and> j < K \<and> finished_in_time e j
                \<and> (\<forall>i. j < i \<and> i < K \<longrightarrow> \<not> finished_in_time e i)" for j
    by (auto simp: last_in_time_def)
  have nsit: "no_search_in_time e K \<longleftrightarrow> (\<forall>j. 1 \<le> j \<and> j < K \<longrightarrow> \<not> finished_in_time e j)"
    by (auto simp: no_search_in_time_def)
  have L: "\<exists>s st1. minimax e version j b NegInf PosInf True (?S j) = Some ((s, best), st1)"
    if "last_in_time e K j" for j
    using last that unfolding lit by blast
  have pl: "playable b best"
  proof (cases "no_search_in_time e K")
    case True
    then have "best = None" using none nsit by simp
    then show ?thesis by (simp add: playable_def)
  next
    case False
    then have "\<exists>j. 1 \<le> j \<and> j < K \<and> finished_in_time e j" unfolding nsit by blast
    from last_in_time_exists[OF this] obtain j where "last_in_time e K j" unfolding lit by blast
    from L[OF this] obtain s st1 where
      "minimax e version j b NegInf PosInf True (?S j) = Some ((s, best), st1)" by blast
    then show ?thesis by (rule minimax_playable[OF wf])
  qed
  have iff: "best = None \<longleftrightarrow> is_terminal_node b = Some True \<or> no_search_in_time e K
           \<or> (\<exists>j. last_in_time e K j \<and> deadline_passed e (nodes_visited (?S j) + 1))"
  proof (cases "no_search_in_time e K")
    case True
    then have "best = None" using none nsit by simp
    then show ?thesis using True by simp
  next
    case False
    then have "\<exists>j. 1 \<le> j \<and> j < K \<and> finished_in_time e j" unfolding nsit by blast
    from last_in_time_exists[OF this] obtain j where j: "last_in_time e K j" unfolding lit by blast
    have uniq: "j' = j" if "last_in_time e K j'" for j'
    proof (rule ccontr)
      assume "j' \<noteq> j"
      then consider "j' < j" | "j < j'" by linarith
      then show False using j that unfolding lit by cases blast+
    qed
    from L[OF j] obtain s st1 where
      m: "minimax e version j b NegInf PosInf True (?S j) = Some ((s, best), st1)" by blast
    have j0: "j \<noteq> 0" using j unfolding lit by simp
    from minimax_move_cases[OF wf, of e version j NegInf PosInf True "?S j"] m
    have "best = None \<longleftrightarrow> deadline_passed e (nodes_visited (?S j) + 1)
                            \<or> is_terminal_node b = Some True"
      using j0 by simp
    moreover have "(\<exists>j'. last_in_time e K j' \<and> deadline_passed e (nodes_visited (?S j') + 1))
        \<longleftrightarrow> deadline_passed e (nodes_visited (?S j) + 1)"
      using j uniq by blast
    ultimately show ?thesis using False by blast
  qed
  show ?thesis using g st pl L iff by blast
qed

text \<open>
  Claim C5, as stated, fails: on the empty board, where all five columns are playable,
  \<open>minimax\<close> returns the move \<open>None\<close> at depth 0, and at depth 1 when the deadline has
  passed; \<open>get_ai_move\<close> returns \<open>None\<close> when the deadline has passed at its first test.
\<close>

lemma get_ai_move_late:
  "get_ai_move late_env 1 create_board
   = Some (Some (None, \<lparr>nodes_visited = 0, max_depth_reached = 0\<rparr>))"
proof -
  have l: "loop_deadline_passed late_env 1" by (simp add: late_env_def)
  show ?thesis unfolding get_ai_move_def
    by (subst deepening_loop.simps) (simp only: l if_True)
qed

lemma minimax_none_at_leaf_and_timeout:
  "minimax never_late_env 1 0 create_board NegInf PosInf True fresh_stats
     = Some ((Fin 0, None), \<lparr>nodes_visited = 1, max_depth_reached = 0\<rparr>)
   \<and> minimax late_env 1 1 create_board NegInf PosInf True fresh_stats
     = Some ((Fin 0, None), \<lparr>nodes_visited = 1, max_depth_reached = 1\<rparr>)
   \<and> get_valid_moves create_board = Some [0, 1, 2, 3, 4]"
  by code_simp

theorem minimax_none_move_counterexample:
  "minimax never_late_env 1 0 create_board NegInf PosInf True fresh_stats
     = Some ((Fin 0, None), \<lparr>nodes_visited = 1, max_depth_reached = 0\<rparr>)
   \<and> minimax late_env 1 1 create_board NegInf PosInf True fresh_stats
     = Some ((Fin 0, None), \<lparr>nodes_visited = 1, max_depth_reached = 1\<rparr>)
   \<and> get_ai_move late_env 1 create_board
     = Some (Some (None, \<lparr>nodes_visited = 0, max_depth_reached = 0\<rparr>))
   \<and> get_valid_moves create_board = Some [0, 1, 2, 3, 4]"
  using minimax_none_at_leaf_and_timeout get_ai_move_late by blast

text \<open>
  Claim C5, amended. On every 6 x 5 board \<open>minimax\<close> returns; the move it returns is
  \<open>None\<close> exactly when the deadline has passed at the call, or the depth is 0, or the board
  is terminal; any other move it returns is a playable column of \<open>[0, COLS)\<close>.
  \<open>get_ai_move\<close> returns once the deadline test at the head of a turn holds and never
  raises. When the turn with depth K is the first whose deadline test holds, it returns the
  counters after the searches of depths 1 to K - 1 and the move of the last of these
  searches that finished in time. So its move is \<open>None\<close> exactly when the board is
  terminal, or none of these searches finished in time, or the deadline had passed at the
  root call of the last search that finished in time (which a clock that only moves forward
  excludes); any other move it returns is a playable column of \<open>[0, COLS)\<close>.
\<close>

theorem minimax_move_none_iff:
  assumes wf: "wf_board b"
  shows "(\<exists>s m st'. minimax e version d b a bt mx st = Some ((s, m), st')
            \<and> (m = None \<longleftrightarrow> deadline_passed e (nodes_visited st + 1) \<or> d = 0
                              \<or> is_terminal_node b = Some True)
            \<and> playable b m)
       \<and> (\<forall>r. get_ai_move e version b = Some r \<longrightarrow>
              (\<exists>best st'. r = Some (best, st') \<and> playable b best))
       \<and> ((\<exists>k. loop_deadline_passed e (Suc k)) \<longrightarrow> get_ai_move e version b \<noteq> None)
       \<and> (\<forall>K. first_stop e K \<longrightarrow>
              (\<exists>best st'. get_ai_move e version b = Some (Some (best, st'))
                 \<and> st' = loop_stats e version b 1 fresh_stats (K - 1)
                 \<and> playable b best
                 \<and> (\<forall>j. last_in_time e K j \<longrightarrow>
                       (\<exists>s st1. minimax e version j b NegInf PosInf True
                                   (loop_stats e version b 1 fresh_stats (j - 1))
                                 = Some ((s, best), st1)))
                 \<and> (best = None \<longleftrightarrow>
                       is_terminal_node b = Some True \<or> no_search_in_time e K
                     \<or> (\<exists>j. last_in_time e K j
                            \<and> deadline_passed e (nodes_visited
                                 (loop_stats e version b 1 fresh_stats (j - 1)) + 1)))))"
proof (intro conjI allI impI)
  show "\<exists>s m st'. minimax e version d b a bt mx st = Some ((s, m), st')
            \<and> (m = None \<longleftrightarrow> deadline_passed e (nodes_visited st + 1) \<or> d = 0
                              \<or> is_terminal_node b = Some True)
            \<and> playable b m"
    using minimax_move_cases[OF wf, of e version d a bt mx st] unfolding playable_def by blast
next
  fix r assume "get_ai_move e version b = Some r"
  then have "deepening_loop e version b 1 None \<lparr>nodes_visited = 0, max_depth_reached = 0\<rparr> = Some r"
    by (simp only: get_ai_move_def)
  moreover have "playable b None" by (simp add: playable_def)
  ultimately show "\<exists>best st'. r = Some (best, st') \<and> playable b best"
    using deepening_loop_playable_aux wf by blast
next
  assume "\<exists>k. loop_deadline_passed e (Suc k)"
  then obtain k where "loop_deadline_passed e (1 + k)" by auto
  from deepening_loop_returns[OF wf this, of version None "\<lparr>nodes_visited = 0, max_depth_reached = 0\<rparr>"]
  obtain best st' where
    "deepening_loop e version b 1 None \<lparr>nodes_visited = 0, max_depth_reached = 0\<rparr> = Some (Some (best, st'))"
    by blast
  then show "get_ai_move e version b \<noteq> None" by (simp only: get_ai_move_def) simp
next
  fix K assume "first_stop e K"
  from get_ai_move_result[OF wf this, of version]
  show "\<exists>best st'. get_ai_move e version b = Some (Some (best, st'))
     \<and> st' = loop_stats e version b 1 fresh_stats (K - 1)
     \<and> playable b best
     \<and> (\<forall>j. last_in_time e K j \<longrightarrow>
           (\<exists>s st1. minimax e version j b NegInf PosInf True
                       (loop_stats e version b 1 fresh_stats (j - 1))
                     = Some ((s, best), st1)))
     \<and> (best = None \<longleftrightarrow>
           is_terminal_node b = Some True \<or> no_search_in_time e K
         \<or> (\<exists>j. last_in_time e K j
                \<and> deadline_passed e (nodes_visited
                     (loop_stats e version b 1 fresh_stats (j - 1)) + 1)))"
    unfolding fresh_stats_def .
qed

lemma get_ai_move_create_board:
  "get_ai_move never_late_env 1 create_board
   = Some (Some (Some 2, \<lparr>nodes_visited = 6, max_depth_reached = 1\<rparr>))"
proof -
  have d: "\<not> loop_deadline_passed never_late_env 1" "loop_deadline_passed never_late_env 2"
    "finished_in_time never_late_env 1"
    by (simp_all add: never_late_env_def)
  have n: "(1::nat) + 1 = 2" by simp
  have f: "\<lparr>nodes_visited = 0, max_depth_reached = 0\<rparr> = fresh_stats"
    by (simp add: fresh_stats_def)
  have s2: "deepening_loop never_late_env 1 create_board 2 (Some 2)
      \<lparr>nodes_visited = 6, max_depth_reached = 1\<rparr>
    = Some (Some (Some 2, \<lparr>nodes_visited = 6, max_depth_reached = 1\<rparr>))"
    by (subst deepening_loop.simps) (simp only: d if_True)
  have s1: "deepening_loop never_late_env 1 create_board 1 None fresh_stats
    = Some (Some (Some 2, \<lparr>nodes_visited = 6, max_depth_reached = 1\<rparr>))"
    by (subst deepening_loop.simps)
       (simp only: d if_True if_False minimax_create_board_v1_depth1 option.case prod.case n s2)
  show ?thesis unfolding get_ai_move_def f by (rule s1)
qed

lemma never_late_env_turns:
  "first_stop never_late_env 2 \<and> last_in_time never_late_env 2 1
   \<and> \<not> no_search_in_time never_late_env 2 \<and> \<not> deadline_passed never_late_env 1"
  by (auto simp: first_stop_def last_in_time_def no_search_in_time_def never_late_env_def)

theorem minimax_move_none_iff_witness:
  "wf_board create_board
   \<and> first_stop never_late_env 2
   \<and> last_in_time never_late_env 2 1
   \<and> minimax never_late_env 1 1 create_board NegInf PosInf True fresh_stats
       = Some ((Fin 3, Some 2), \<lparr>nodes_visited = 6, max_depth_reached = 1\<rparr>)
   \<and> get_ai_move never_late_env 1 create_board
       = Some (Some (Some 2, \<lparr>nodes_visited = 6, max_depth_reached = 1\<rparr>))
   \<and> loop_stats never_late_env 1 create_board 1 fresh_stats (2 - 1)
       = \<lparr>nodes_visited = 6, max_depth_reached = 1\<rparr>
   \<and> playable create_board (Some 2)
   \<and> is_valid_move create_board 2 = Some True
   \<and> is_terminal_node create_board \<noteq> Some True
   \<and> \<not> no_search_in_time never_late_env 2"
proof -
  have w: "wf_board create_board" by (rule wf_create_board)
  have fs: "first_stop never_late_env 2" by (rule never_late_env_turns[THEN conjunct1])
  have li: "last_in_time never_late_env 2 1"
    by (rule never_late_env_turns[THEN conjunct2, THEN conjunct1])
  have ns: "\<not> no_search_in_time never_late_env 2"
    by (rule never_late_env_turns[THEN conjunct2, THEN conjunct2, THEN conjunct1])
  note turn = minimax_move_none_iff[OF w, of never_late_env 1 1 NegInf PosInf True fresh_stats,
      THEN conjunct2, THEN conjunct2, THEN conjunct2, rule_format, OF fs]
  from turn obtain best st' where
    all: "get_ai_move never_late_env 1 create_board = Some (Some (best, st'))
       \<and> st' = loop_stats never_late_env 1 create_board 1 fresh_stats (2 - 1)
       \<and> playable create_board best
       \<and> (\<forall>j. last_in_time never_late_env 2 j \<longrightarrow>
             (\<exists>s st1. minimax never_late_env 1 j create_board NegInf PosInf True
                         (loop_stats never_late_env 1 create_board 1 fresh_stats (j - 1))
                       = Some ((s, best), st1)))
       \<and> (best = None \<longleftrightarrow>
             is_terminal_node create_board = Some True \<or> no_search_in_time never_late_env 2
           \<or> (\<exists>j. last_in_time never_late_env 2 j
                  \<and> deadline_passed never_late_env (nodes_visited
                       (loop_stats never_late_env 1 create_board 1 fresh_stats (j - 1)) + 1)))"
    by (elim exE) (rule that)
  note g = all[THEN conjunct1]
  note st = all[THEN conjunct2, THEN conjunct1]
  note p = all[THEN conjunct2, THEN conjunct2, THEN conjunct1]
  note iff = all[THEN conjunct2, THEN conjunct2, THEN conjunct2, THEN conjunct2]
  have "Some (Some (best, st')) = Some (Some (Some 2, \<lparr>nodes_visited = 6, max_depth_reached = 1\<rparr>))"
    by (rule trans[OF g[symmetric] get_ai_move_create_board])
  then have b: "best = Some 2" and s: "st' = \<lparr>nodes_visited = 6, max_depth_reached = 1\<rparr>"
    by simp_all
  have p2: "playable create_board (Some 2)" by (rule p[unfolded b])
  then have v: "is_valid_move create_board 2 = Some True" unfolding playable_def by blast
  have t: "is_terminal_node create_board \<noteq> Some True"
  proof
    assume "is_terminal_node create_board = Some True"
    then have "is_terminal_node create_board = Some True \<or> no_search_in_time never_late_env 2
           \<or> (\<exists>j. last_in_time never_late_env 2 j
                  \<and> deadline_passed never_late_env (nodes_visited
                       (loop_stats never_late_env 1 create_board 1 fresh_stats (j - 1)) + 1))"
      by (rule disjI1)
    then have "best = None" by (rule iff[THEN iffD2])
    then show False using b by simp
  qed
  have ls: "loop_stats never_late_env 1 create_board 1 fresh_stats (2 - 1)
       = \<lparr>nodes_visited = 6, max_depth_reached = 1\<rparr>"
    by (rule trans[OF st[symmetric] s])
  show ?thesis
    by (intro conjI) (rule w, rule fs, rule li, rule minimax_create_board_v1_depth1,
        rule get_ai_move_create_board, rule ls, rule p2, rule v, rule t, rule ns)
qed

section \<open>Properties of the store model\<close>

lemma keeps_refl: "keeps s s"
  by (simp add: keeps_def)

lemma keeps_len:
  assumes "keeps s s'"
  shows "length (row_objs s) \<le> length (row_objs s')" "length (board_objs s) \<le> length (board_objs s')"
  using assms unfolding keeps_def by (simp_all add: prefix_length_le)

lemma prefix_nth: "prefix xs ys \<Longrightarrow> i < length xs \<Longrightarrow> ys ! i = xs ! i"
  by (auto simp: prefix_def nth_append)

lemma keeps_nth:
  assumes "keeps s s'"
  shows "a < length (row_objs s) \<Longrightarrow> row_objs s' ! a = row_objs s ! a"
    "r < length (board_objs s) \<Longrightarrow> board_objs s' ! r = board_objs s ! r"
  using assms unfolding keeps_def by (simp_all add: prefix_nth)

lemma keeps_trans: "keeps s s1 \<Longrightarrow> keeps s1 s2 \<Longrightarrow> keeps s s2"
  unfolding keeps_def by (meson prefix_order.trans)

lemma keeps_load_row: "keeps s s' \<Longrightarrow> load_row s a = Some cells \<Longrightarrow> load_row s' a = Some cells"
  using keeps_len(1)[of s s'] keeps_nth(1)[of s s' a]
  by (auto simp: load_row_def split: if_splits)

lemma keeps_load_board: "keeps s s' \<Longrightarrow> load_board s r = Some as \<Longrightarrow> load_board s' r = Some as"
  using keeps_len(2)[of s s'] keeps_nth(2)[of s s' r]
  by (auto simp: load_board_def split: if_splits)

lemma those_map_Some_iff:
  "those (map f xs) = Some ys \<longleftrightarrow> length ys = length xs \<and> (\<forall>i<length xs. f (xs ! i) = Some (ys ! i))"
proof (induction xs arbitrary: ys)
  case Nil then show ?case by auto
next
  case (Cons x xs)
  show ?case
  proof (cases "f x")
    case None
    then show ?thesis by (auto intro: exI[of _ 0])
  next
    case (Some y)
    show ?thesis
    proof (cases "those (map f xs)")
      case None
      have "\<not> (length ys = length (x # xs) \<and> (\<forall>i<length (x # xs). f ((x # xs) ! i) = Some (ys ! i)))"
      proof
        assume h: "length ys = length (x # xs) \<and> (\<forall>i<length (x # xs). f ((x # xs) ! i) = Some (ys ! i))"
        then obtain y' ys' where ys: "ys = y' # ys'" by (cases ys) auto
        have "length ys' = length xs \<and> (\<forall>i<length xs. f (xs ! i) = Some (ys' ! i))"
          using h ys by auto
        then have "those (map f xs) = Some ys'" using Cons.IH by blast
        then show False using None by simp
      qed
      then show ?thesis using Some None by simp
    next
      case (Some zs) note zs = this
      have IH: "length zs = length xs \<and> (\<forall>i<length xs. f (xs ! i) = Some (zs ! i))"
        using Cons.IH[of zs] zs by simp
      show ?thesis
      proof
        assume "those (map f (x # xs)) = Some ys"
        then have ys: "ys = y # zs" using \<open>f x = Some y\<close> zs by simp
        show "length ys = length (x # xs) \<and> (\<forall>i<length (x # xs). f ((x # xs) ! i) = Some (ys ! i))"
          using IH \<open>f x = Some y\<close> unfolding ys by (auto simp: nth_Cons')
      next
        assume h: "length ys = length (x # xs) \<and> (\<forall>i<length (x # xs). f ((x # xs) ! i) = Some (ys ! i))"
        then obtain y' ys' where ys: "ys = y' # ys'" by (cases ys) auto
        have "f x = Some y'" using h ys by (auto dest: spec[of _ 0])
        moreover have "length ys' = length xs \<and> (\<forall>i<length xs. f (xs ! i) = Some (ys' ! i))"
          using h ys by auto
        then have "those (map f xs) = Some ys'" using Cons.IH by blast
        ultimately show "those (map f (x # xs)) = Some ys" using ys by simp
      qed
    qed
  qed
qed

lemma keeps_read_board:
  assumes "keeps s s'" "read_board s r = Some b"
  shows "read_board s' r = Some b"
proof -
  from assms(2) obtain as where as: "load_board s r = Some as" "those (map (load_row s) as) = Some b"
    by (auto simp: read_board_def bind_eq_Some_conv)
  have "those (map (load_row s') as) = Some b"
    using as(2) keeps_load_row[OF assms(1)] unfolding those_map_Some_iff by auto
  then show ?thesis using keeps_load_board[OF assms(1) as(1)] by (simp add: read_board_def)
qed

text \<open>Copying rows only allocates; the rows of the copy are fresh objects.\<close>

lemma copy_rows_fresh:
  "copy_rows s memo as = Some (as', s') \<Longrightarrow> n \<le> length (row_objs s) \<Longrightarrow> \<forall>y\<in>snd ` set memo. n \<le> y
   \<Longrightarrow> keeps s s' \<and> board_objs s' = board_objs s \<and> (\<forall>a'\<in>set as'. n \<le> a')"
proof (induction as arbitrary: s memo as')
  case Nil
  then show ?case by (simp add: keeps_refl)
next
  case (Cons a as)
  show ?case
  proof (cases "map_of memo a")
    case (Some a0)
    then obtain as0 where r: "copy_rows s memo as = Some (as0, s')" "as' = a0 # as0"
      using Cons.prems(1) by (auto simp: bind_eq_Some_conv)
    have "(a, a0) \<in> set memo" using Some by (rule map_of_SomeD)
    then have "n \<le> a0" using Cons.prems(3) by force
    then show ?thesis using Cons.IH[OF r(1) Cons.prems(2,3)] r(2) by simp
  next
    case None
    then obtain cells as0 where c: "load_row s a = Some cells"
      and r: "copy_rows (s\<lparr>row_objs := row_objs s @ [cells]\<rparr>) ((a, length (row_objs s)) # memo) as = Some (as0, s')"
      and e: "as' = length (row_objs s) # as0"
      using Cons.prems(1) by (auto simp: bind_eq_Some_conv)
    let ?s1 = "s\<lparr>row_objs := row_objs s @ [cells]\<rparr>"
    have k1: "keeps s ?s1" by (simp add: keeps_def)
    have "n \<le> length (row_objs ?s1)" using Cons.prems(2) by simp
    moreover have "\<forall>y\<in>snd ` set ((a, length (row_objs s)) # memo). n \<le> y"
      using Cons.prems(2,3) by auto
    ultimately have "keeps ?s1 s' \<and> board_objs s' = board_objs ?s1 \<and> (\<forall>a'\<in>set as0. n \<le> a')"
      using Cons.IH[OF r] by blast
    then show ?thesis using keeps_trans[OF k1] e Cons.prems(2) by simp
  qed
qed

lemma py_index_mem: "py_index xs i = Some x \<Longrightarrow> x \<in> set xs"
  by (auto simp: py_index_def Let_def split: if_splits)

text \<open>The loop writes into rows of the new board only.\<close>

lemma drop_loop_store_frame:
  assumes "load_board s nb = Some as" "\<forall>a\<in>set as. n \<le> a"
  shows "drop_loop_store s nb rows col piece = Some s' \<Longrightarrow>
     board_objs s' = board_objs s \<and> length (row_objs s') = length (row_objs s)
     \<and> (\<forall>i<n. row_objs s' ! i = row_objs s ! i)"
proof (induction rows)
  case Nil then show ?case by simp
next
  case (Cons row rows)
  from Cons.prems obtain a cells x where
    a: "py_index as row = Some a" and c: "load_row s a = Some cells" and x: "py_index cells col = Some x"
    using assms(1) by (auto simp: bind_eq_Some_conv)
  have na: "n \<le> a" using py_index_mem[OF a] assms(2) by blast
  show ?case
  proof (cases "x = EMPTY")
    case True
    then obtain cells' where "s' = s\<lparr>row_objs := (row_objs s)[a := cells']\<rparr>"
      using Cons.prems assms(1) a c x by (auto simp: bind_eq_Some_conv)
    then show ?thesis using na by simp
  next
    case False
    then have "drop_loop_store s nb rows col piece = Some s'"
      using Cons.prems assms(1) a c x by simp
    then show ?thesis by (rule Cons.IH)
  qed
qed

lemma make_move_store_keeps: "keeps s (snd (make_move_store s board col piece))"
proof (cases "deepcopy s board")
  case None
  then show ?thesis by (simp add: make_move_store_def keeps_refl)
next
  case (Some p)
  obtain nb s1 where p: "p = (nb, s1)" by (cases p)
  from Some p obtain as as' s0 where as: "load_board s board = Some as"
    and cr: "copy_rows s [] as = Some (as', s0)"
    and nb: "nb = length (board_objs s0)" and s1: "s1 = s0\<lparr>board_objs := board_objs s0 @ [as']\<rparr>"
    by (auto simp: deepcopy_def bind_eq_Some_conv)
  have f: "keeps s s0" "board_objs s0 = board_objs s" "\<forall>a'\<in>set as'. length (row_objs s) \<le> a'"
    using copy_rows_fresh[OF cr, of "length (row_objs s)"] by auto
  have k1: "keeps s s1" using f(1) unfolding s1 keeps_def by simp
  show ?thesis
  proof (cases "drop_loop_store s1 nb (rev (py_range ROWS)) col piece")
    case None
    then show ?thesis using Some p k1 by (simp add: make_move_store_def)
  next
    case (Some s2)
    have lb: "load_board s1 nb = Some as'" by (simp add: load_board_def nb s1)
    from drop_loop_store_frame[OF lb f(3) Some]
    have fr: "board_objs s2 = board_objs s1" "length (row_objs s2) = length (row_objs s1)"
      "\<forall>i<length (row_objs s). row_objs s2 ! i = row_objs s1 ! i" by auto
    have "take (length (row_objs s)) (row_objs s2) = row_objs s"
      using fr(2,3) keeps_len(1)[OF k1] keeps_nth(1)[OF k1] by (intro nth_equalityI) auto
    then have "prefix (row_objs s) (row_objs s2)" by (metis take_is_prefix)
    then have "keeps s s2" using k1 fr(1) by (simp add: keeps_def)
    then show ?thesis using \<open>deepcopy s board = Some p\<close> p Some by (simp add: make_move_store_def)
  qed
qed

text \<open>
  Claim C10. \<open>make_move\<close> never mutates its input board: for every store, every board
  of the store, every column and piece, whether the call returns or raises, the input
  board reads, cell for cell, as before the call, and so does every other object that
  existed before the call.
\<close>

theorem make_move_store_preserves_input:
  assumes "read_board s board = Some b"
  shows "read_board (snd (make_move_store s board col piece)) board = Some b
       \<and> keeps s (snd (make_move_store s board col piece))"
  using keeps_read_board[OF make_move_store_keeps assms] make_move_store_keeps by blast

lemma create_board_store_empty:
  "create_board_store empty_store
   = (0, \<lparr>row_objs = [[0,0,0,0,0],[0,0,0,0,0],[0,0,0,0,0],[0,0,0,0,0],[0,0,0,0,0],[0,0,0,0,0]],
          board_objs = [[0, 1, 2, 3, 4, 5]]\<rparr>)"
  by code_simp

lemma read_board_created:
  "read_board (snd (create_board_store empty_store)) 0 = Some create_board"
  by code_simp

lemma make_move_store_created:
  "make_move_store (snd (create_board_store empty_store)) 0 2 AI_PIECE
   = (Some 1, \<lparr>row_objs = [[0,0,0,0,0],[0,0,0,0,0],[0,0,0,0,0],[0,0,0,0,0],[0,0,0,0,0],[0,0,0,0,0],
                            [0,0,0,0,0],[0,0,0,0,0],[0,0,0,0,0],[0,0,0,0,0],[0,0,0,0,0],[0,0,2,0,0]],
               board_objs = [[0, 1, 2, 3, 4, 5], [6, 7, 8, 9, 10, 11]]\<rparr>)"
  by code_simp

theorem make_move_store_preserves_input_witness:
  "read_board (snd (create_board_store empty_store)) 0 = Some create_board
   \<and> fst (make_move_store (snd (create_board_store empty_store)) 0 2 AI_PIECE) = Some 1
   \<and> read_board (snd (make_move_store (snd (create_board_store empty_store)) 0 2 AI_PIECE)) 1
       = make_move create_board 2 AI_PIECE
   \<and> read_board (snd (make_move_store (snd (create_board_store empty_store)) 0 2 AI_PIECE)) 0
       = Some create_board"
proof -
  have 1: "read_board (snd (create_board_store empty_store)) 0 = Some create_board"
    by (rule read_board_created)
  have 2: "fst (make_move_store (snd (create_board_store empty_store)) 0 2 AI_PIECE) = Some 1"
    unfolding make_move_store_created by simp
  have 3: "read_board (snd (make_move_store (snd (create_board_store empty_store)) 0 2 AI_PIECE)) 1
       = make_move create_board 2 AI_PIECE"
    unfolding make_move_store_created make_move_create_board_2 by code_simp
  from make_move_store_preserves_input[OF 1, of 2 AI_PIECE] 1 2 3 show ?thesis by simp
qed

lemma py_pos_less: "py_pos n i = Some j \<Longrightarrow> j < n"
  by (auto simp: py_pos_def Let_def split: if_splits)

lemma py_index_pos: "py_index xs i = map_option (nth xs) (py_pos (length xs) i)"
  by (simp add: py_index_def py_pos_def Let_def)

lemma py_store_pos: "py_store xs i v = map_option (\<lambda>j. xs[j := v]) (py_pos (length xs) i)"
  by (simp add: py_store_def py_pos_def Let_def)

lemma those_map_Cons:
  "those (map f (x # xs)) = Some ys \<longleftrightarrow> (\<exists>y ys'. f x = Some y \<and> those (map f xs) = Some ys' \<and> ys = y # ys')"
  by (auto split: option.splits)

lemma copy_rows_distinct:
  "distinct as \<Longrightarrow> set as \<inter> fst ` set memo = {} \<Longrightarrow> those (map (load_row s) as) = Some rs \<Longrightarrow>
   copy_rows s memo as
     = Some ([length (row_objs s)..<length (row_objs s) + length as], s\<lparr>row_objs := row_objs s @ rs\<rparr>)"
proof (induction as arbitrary: s memo rs)
  case Nil
  then show ?case by simp
next
  case (Cons a as)
  from Cons.prems(3) obtain r0 rs' where r0: "load_row s a = Some r0"
    and rs': "those (map (load_row s) as) = Some rs'" and rs: "rs = r0 # rs'"
    unfolding those_map_Cons by blast
  have nm: "map_of memo a = None" using Cons.prems(2) by (simp add: map_of_eq_None_iff)
  let ?s1 = "s\<lparr>row_objs := row_objs s @ [r0]\<rparr>"
  let ?memo1 = "(a, length (row_objs s)) # memo"
  have d: "distinct as" "set as \<inter> fst ` set ?memo1 = {}" using Cons.prems(1,2) by auto
  have k: "keeps s ?s1" by (simp add: keeps_def)
  have t: "those (map (load_row ?s1) as) = Some rs'"
    using rs' keeps_load_row[OF k] unfolding those_map_Some_iff by auto
  have "copy_rows ?s1 ?memo1 as
     = Some ([length (row_objs ?s1)..<length (row_objs ?s1) + length as], ?s1\<lparr>row_objs := row_objs ?s1 @ rs'\<rparr>)"
    by (rule Cons.IH[OF d t])
  moreover have "[length (row_objs s)..<length (row_objs s) + length (a # as)]
      = length (row_objs s) # [length (row_objs ?s1)..<length (row_objs ?s1) + length as]"
    using upt_conv_Cons[of "length (row_objs s)" "length (row_objs s) + Suc (length as)"] by simp
  ultimately show ?case using nm r0 rs by simp
qed

lemma drop_loop_store_simulates:
  assumes lb: "load_board st nb = Some as" and dis: "distinct as"
    and rd: "those (map (load_row st) as) = Some bd"
  shows "(drop_loop_store st nb rows col piece = None \<longleftrightarrow> drop_loop bd rows col piece = None)
       \<and> (\<forall>st'. drop_loop_store st nb rows col piece = Some st' \<longrightarrow>
             board_objs st' = board_objs st
             \<and> (\<exists>bd'. drop_loop bd rows col piece = Some bd' \<and> those (map (load_row st') as) = Some bd'))"
proof (induction rows)
  case Nil
  then show ?case using rd by simp
next
  case (Cons row rows)
  have len: "length bd = length as" and ld: "\<And>i. i < length as \<Longrightarrow> load_row st (as ! i) = Some (bd ! i)"
    using rd unfolding those_map_Some_iff by auto
  show ?case
  proof (cases "py_pos (length as) row")
    case None
    then show ?thesis using lb len by (simp add: py_index_pos cell_def)
  next
    case (Some j)
    then have j: "j < length as" by (rule py_pos_less)
    have ia: "py_index as row = Some (as ! j)" and ib: "py_index bd row = Some (bd ! j)"
      using Some len by (simp_all add: py_index_pos)
    have lr: "load_row st (as ! j) = Some (bd ! j)" by (rule ld[OF j])
    show ?thesis
    proof (cases "py_pos (length (bd ! j)) col")
      case None
      then show ?thesis using lb ia ib lr by (simp add: py_index_pos[of "bd ! j"] cell_def)
    next
      case (Some c)
      then have ic: "py_index (bd ! j) col = Some (bd ! j ! c)"
        and sc: "py_store (bd ! j) col piece = Some ((bd ! j)[c := piece])"
        by (simp_all add: py_index_pos py_store_pos)
      show ?thesis
      proof (cases "bd ! j ! c = EMPTY")
        case False
        have 1: "drop_loop_store st nb (row # rows) col piece = drop_loop_store st nb rows col piece"
          using lb ia lr ic False by simp
        have 2: "drop_loop bd (row # rows) col piece = drop_loop bd rows col piece"
          using ib ic False by (simp add: cell_def)
        show ?thesis unfolding 1 2 by (rule Cons.IH)
      next
        case True
        let ?cells = "(bd ! j)[c := piece]"
        let ?st' = "st\<lparr>row_objs := (row_objs st)[as ! j := ?cells]\<rparr>"
        have 1: "drop_loop_store st nb (row # rows) col piece = Some ?st'"
          using lb ia lr ic sc True by simp
        have "py_store bd row ?cells = Some (bd[j := ?cells])"
          using \<open>py_pos (length as) row = Some j\<close> len by (simp add: py_store_pos)
        then have 2: "drop_loop bd (row # rows) col piece = Some (bd[j := ?cells])"
          using ib ic sc True by (simp add: cell_def set_cell_def)
        have aj: "as ! j < length (row_objs st)"
          using lr by (auto simp: load_row_def split: if_splits)
        have "those (map (load_row ?st') as) = Some (bd[j := ?cells])"
          unfolding those_map_Some_iff
        proof (intro conjI allI impI)
          show "length (bd[j := ?cells]) = length as" using len by simp
        next
          fix i assume i: "i < length as"
          show "load_row ?st' (as ! i) = Some (bd[j := ?cells] ! i)"
          proof (cases "i = j")
            case True
            then show ?thesis using aj j len by (simp add: load_row_def)
          next
            case False
            then have "as ! i \<noteq> as ! j" using dis i j by (simp add: nth_eq_iff_index_eq)
            then show ?thesis using ld[OF i] False by (auto simp: load_row_def split: if_splits)
          qed
        qed
        then show ?thesis unfolding 1 2 by simp
      qed
    qed
  qed
qed

text \<open>
  The store model and the value model agree: on a board whose rows are distinct objects
  (as \<open>create_board\<close> makes them), \<open>make_move\<close> on the store raises exactly when
  \<open>make_move\<close> on the value does, and otherwise the new board reads as the value
  \<open>make_move\<close> returns, and its rows are again distinct objects.
\<close>

lemma make_move_store_refines:
  assumes rb: "read_board s board = Some b" and lb: "load_board s board = Some as" and dis: "distinct as"
  shows "(fst (make_move_store s board col piece) = None \<longleftrightarrow> make_move b col piece = None)
       \<and> (\<forall>r. fst (make_move_store s board col piece) = Some r \<longrightarrow>
             read_board (snd (make_move_store s board col piece)) r = make_move b col piece
             \<and> (\<exists>as'. load_board (snd (make_move_store s board col piece)) r = Some as' \<and> distinct as'))"
proof -
  have t: "those (map (load_row s) as) = Some b" using rb lb by (simp add: read_board_def)
  then have len: "length b = length as" unfolding those_map_Some_iff by simp
  let ?n = "length (row_objs s)"
  let ?as' = "[?n..<?n + length as]"
  let ?s0 = "s\<lparr>row_objs := row_objs s @ b\<rparr>"
  let ?nb = "length (board_objs s)"
  let ?s1 = "?s0\<lparr>board_objs := board_objs ?s0 @ [?as']\<rparr>"
  have cr: "copy_rows s [] as = Some (?as', ?s0)"
    using copy_rows_distinct[OF dis _ t, of "[]"] by simp
  have dc: "deepcopy s board = Some (?nb, ?s1)"
    using lb cr by (simp add: deepcopy_def)
  have lb1: "load_board ?s1 ?nb = Some ?as'" by (simp add: load_board_def)
  have d1: "distinct ?as'" by simp
  have t1: "those (map (load_row ?s1) ?as') = Some b"
    unfolding those_map_Some_iff
  proof (intro conjI allI impI)
    show "length b = length ?as'" using len by simp
  next
    fix i assume "i < length ?as'"
    then have i: "i < length b" using len by simp
    then have "?as' ! i = ?n + i" using len by simp
    then show "load_row ?s1 (?as' ! i) = Some (b ! i)"
      using i by (simp add: load_row_def nth_append)
  qed
  note sim = drop_loop_store_simulates[OF lb1 d1 t1, of "rev (py_range ROWS)" col piece]
  show ?thesis
  proof (cases "drop_loop_store ?s1 ?nb (rev (py_range ROWS)) col piece")
    case None
    then have "make_move_store s board col piece = (None, ?s1)"
      using dc by (simp add: make_move_store_def)
    moreover have "drop_loop b (rev (py_range ROWS)) col piece = None"
      using sim[THEN conjunct1] None by blast
    then have "make_move b col piece = None" by (simp only: make_move_def)
    ultimately show ?thesis by simp
  next
    case (Some s2)
    then have m: "make_move_store s board col piece = (Some ?nb, s2)"
      using dc by (simp add: make_move_store_def)
    from sim[THEN conjunct2, rule_format, OF Some] obtain bd' where
      bo: "board_objs s2 = board_objs ?s1" and dl: "drop_loop b (rev (py_range ROWS)) col piece = Some bd'"
      and t2: "those (map (load_row s2) ?as') = Some bd'" by blast
    have lb2: "load_board s2 ?nb = Some ?as'" using bo by (simp add: load_board_def)
    have "read_board s2 ?nb = Some bd'" using lb2 t2 by (simp add: read_board_def)
    moreover have "make_move b col piece = Some bd'" using dl by (simp only: make_move_def)
    ultimately show ?thesis using m lb2 d1 by simp
  qed
qed

end
